theory Spec2Isabelle
  imports Complex_Main
begin

section \<open>Data model\<close>

text \<open>
  The module \<^verbatim>\<open>optimesh/main.py\<close> works on numpy arrays of float64. A point is a
  row of coordinates and an array of points is a list of rows. Floating-point numbers
  are modelled by exact reals; the value \<^verbatim>\<open>numpy.inf\<close> that the step bound starts
  from is the constructor \<open>Inf\<close> of the type \<open>bound\<close>. Rounding, NaN and the
  infinities that a float division by zero produces are outside the model.
\<close>

type_synonym vec = "real list"

record mesh =
  points :: "vec list"
  cells :: "(nat \<times> nat \<times> nat) list"

datatype bound = Fin real | Inf

datatype error = KeyError | AssertionError | ValueError

datatype strategy =
    Cvt_lloyd | Cvt_block_diagonal | Cvt_full
  | Cpt_linear_solve | Cpt_fixed_point | Cpt_quasi_newton
  | Laplace | Odt_fixed_point

datatype event = PrintBefore | PrintFinal int | Save int | Callback int

text \<open>The object passed as \<^verbatim>\<open>implicit_surface\<close>: its methods \<^verbatim>\<open>f\<close> and \<^verbatim>\<open>grad\<close>,
  which numpy applies to all points at once, one column per point.\<close>

record surface =
  surf_f :: "vec \<Rightarrow> real"
  surf_grad :: "vec \<Rightarrow> vec"

text \<open>The keyword arguments of \<^verbatim>\<open>_optimize\<close>. An argument with a default value is
  \<open>None\<close> when the caller does not pass it.\<close>

record options =
  omega :: "real option"
  method_name :: "string option"
  verbose :: bool
  callback :: bool
  step_filename_format :: "string option"
  implicit_surface :: "surface option"
  implicit_surface_tol :: "real option"
  boundary_step :: "(vec list \<Rightarrow> vec list) option"

text \<open>The collaborators that the module imports: the mesh properties and the Delaunay
  repair of meshplex, the \<^verbatim>\<open>get_new_points\<close> of each strategy module and the scipy
  based optimizer of the module \<^verbatim>\<open>odt\<close>.\<close>

record services =
  is_boundary_point :: "mesh \<Rightarrow> bool list"
  cell_inradius :: "mesh \<Rightarrow> real list"
  flip_until_delaunay :: "mesh \<Rightarrow> mesh"
  strategy_new_points :: "strategy \<Rightarrow> mesh \<Rightarrow> vec list"
  nonlinear_optimization :: "mesh \<Rightarrow> string \<Rightarrow> real \<Rightarrow> int \<Rightarrow> options \<Rightarrow> mesh"

text \<open>The local variables of \<^verbatim>\<open>_optimize\<close> when its loop is left, the value it
  returns (or the exception of \<^verbatim>\<open>numpy.max\<close> on an empty array) and the calls to
  \<^verbatim>\<open>print_stats\<close>, \<^verbatim>\<open>mesh.save\<close> and \<^verbatim>\<open>callback\<close> in their order.\<close>

record run =
  retval :: "error + int \<times> real"
  k_final :: int
  last_diff :: "vec list"
  mesh_final :: mesh
  out :: "event list"

section \<open>Array arithmetic\<close>

definition vsub :: "vec \<Rightarrow> vec \<Rightarrow> vec" where
  "vsub a b = map2 (-) a b"

definition vadd :: "vec \<Rightarrow> vec \<Rightarrow> vec" where
  "vadd a b = map2 (+) a b"

definition scale :: "real \<Rightarrow> vec \<Rightarrow> vec" where
  "scale c a = map (\<lambda>x. x * c) a"

definition dot :: "vec \<Rightarrow> vec \<Rightarrow> real" where
  "dot a b = sum_list (map2 (*) a b)"

text \<open>Boolean-mask indexing: \<^verbatim>\<open>a[idx]\<close> and \<^verbatim>\<open>a[idx] = vals\<close>.\<close>

fun mask_select :: "'a list \<Rightarrow> bool list \<Rightarrow> 'a list" where
  "mask_select (x # xs) (b # bs) = (if b then x # mask_select xs bs else mask_select xs bs)"
| "mask_select _ _ = []"

fun mask_assign :: "'a list \<Rightarrow> bool list \<Rightarrow> 'a list \<Rightarrow> 'a list" where
  "mask_assign (x # xs) (True # bs) (v # vs) = v # mask_assign xs bs vs"
| "mask_assign (x # xs) (False # bs) vs = x # mask_assign xs bs vs"
| "mask_assign xs _ _ = xs"

section \<open>The step bound\<close>

fun bmin :: "bound \<Rightarrow> real \<Rightarrow> bound" where
  "bmin Inf r = Fin r"
| "bmin (Fin b) r = Fin (min b r)"

fun half :: "bound \<Rightarrow> bound" where
  "half Inf = Inf"
| "half (Fin b) = Fin (b * 0.5)"

fun exceeds :: "real \<Rightarrow> bound \<Rightarrow> bool" where
  "exceeds s Inf = False"
| "exceeds s (Fin b) = (s > b)"

fun fin :: "bound \<Rightarrow> real" where
  "fin (Fin b) = b"
| "fin Inf = 0"

text \<open>\<^verbatim>\<open>numpy.minimum.at(a, idxs, vals)\<close>: for each pair of an index and a value, in
  order, the entry at the index becomes the smaller of itself and the value.\<close>

definition minimum_at :: "bound list \<Rightarrow> nat list \<Rightarrow> real list \<Rightarrow> bound list" where
  "minimum_at a idxs vals = fold (\<lambda>(j, r) a. a[j := bmin (a ! j) r]) (zip idxs vals) a"

definition reshape_cells :: "(nat \<times> nat \<times> nat) list \<Rightarrow> nat list" where
  "reshape_cells cs = concat (map (\<lambda>(a, b, c). [a, b, c]) cs)"

definition repeat3 :: "real list \<Rightarrow> real list" where
  "repeat3 rs = concat (map (\<lambda>r. [r, r, r]) rs)"

definition max_step :: "services \<Rightarrow> mesh \<Rightarrow> bound list" where
  "max_step E m =
     map half (minimum_at (replicate (length (points m)) Inf)
                 (reshape_cells (cells m)) (repeat3 (cell_inradius E m)))"

section \<open>One pass of the loop of \<^verbatim>\<open>_optimize\<close>\<close>

text \<open>Lines 91 to 101: the proposal of the strategy with its boundary rows overwritten.\<close>

definition proposal :: "services \<Rightarrow> (mesh \<Rightarrow> vec list) \<Rightarrow> options \<Rightarrow> mesh \<Rightarrow> vec list" where
  "proposal E gnp opts m =
     (let new_points = gnp m;
          idx = is_boundary_point E m
      in case boundary_step opts of
           None \<Rightarrow> mask_assign new_points idx (mask_select (points m) idx)
         | Some bs \<Rightarrow> mask_assign new_points idx (bs (mask_select new_points idx)))"

definition omega_value :: "options \<Rightarrow> real" where
  "omega_value opts = (case omega opts of None \<Rightarrow> 1 | Some w \<Rightarrow> w)"

text \<open>Line 103.\<close>

definition raw_diff :: "services \<Rightarrow> (mesh \<Rightarrow> vec list) \<Rightarrow> options \<Rightarrow> mesh \<Rightarrow> vec list" where
  "raw_diff E gnp opts m =
     map2 (\<lambda>np p. scale (omega_value opts) (vsub np p)) (proposal E gnp opts m) (points m)"

definition step_length :: "vec \<Rightarrow> real" where
  "step_length d = sqrt (dot d d)"

text \<open>Lines 120 to 125, for one row: the rows selected by
  \<^verbatim>\<open>step_lengths > max_step\<close> are multiplied by the quotient, the others are kept.\<close>

definition clamp_row :: "bound \<Rightarrow> vec \<Rightarrow> vec" where
  "clamp_row b d =
     (if exceeds (step_length d) b then scale (fin b / step_length d) d else d)"

definition clamped_diff :: "services \<Rightarrow> (mesh \<Rightarrow> vec list) \<Rightarrow> options \<Rightarrow> mesh \<Rightarrow> vec list" where
  "clamped_diff E gnp opts m = map2 clamp_row (max_step E m) (raw_diff E gnp opts m)"

text \<open>Line 127.\<close>

definition stepped_points :: "services \<Rightarrow> (mesh \<Rightarrow> vec list) \<Rightarrow> options \<Rightarrow> mesh \<Rightarrow> vec list" where
  "stepped_points E gnp opts m = map2 vadd (points m) (clamped_diff E gnp opts m)"

text \<open>Lines 133 to 138 for one point and its field value: the gradient times the
  quotient of the field value and the squared length of the gradient is subtracted.
  Where the gradient is zero numpy divides by zero and the point becomes NaN; the
  real division gives 0 there, so such points are outside the model.\<close>

definition newton_row :: "surface \<Rightarrow> vec \<Rightarrow> real \<Rightarrow> vec" where
  "newton_row S p fv =
     (let g = surf_grad S p;
          grad_dot_grad = dot g g
      in vsub p (scale (fv / grad_dot_grad) g))"

text \<open>Lines 132 to 140: the loop has no bound on its passes, so it is a partial
  function and \<open>None\<close> stands for a loop that never ends.\<close>

partial_function (option) project_loop ::
  "surface \<Rightarrow> real \<Rightarrow> vec list \<Rightarrow> real list \<Rightarrow> vec list option" where
  "project_loop S tol new_points fval =
     (if list_ex (\<lambda>v. \<bar>v\<bar> > tol) fval then
        (let new_points' = map2 (newton_row S) new_points fval;
             fval' = map (surf_f S) new_points'
         in project_loop S tol new_points' fval')
      else Some new_points)"

definition surface_tol :: "options \<Rightarrow> real" where
  "surface_tol opts = (case implicit_surface_tol opts of None \<Rightarrow> 1 / 10 ^ 10 | Some t \<Rightarrow> t)"

text \<open>Lines 130 to 140.\<close>

definition project_to_surface :: "options \<Rightarrow> vec list \<Rightarrow> vec list option" where
  "project_to_surface opts new_points =
     (case implicit_surface opts of
        None \<Rightarrow> Some new_points
      | Some S \<Rightarrow> project_loop S (surface_tol opts) new_points (map (surf_f S) new_points))"

text \<open>Lines 91 to 143: the mesh after the pass together with the clamped \<^verbatim>\<open>diff\<close>.\<close>

definition iteration ::
  "services \<Rightarrow> (mesh \<Rightarrow> vec list) \<Rightarrow> options \<Rightarrow> mesh \<Rightarrow> (mesh \<times> vec list) option" where
  "iteration E gnp opts m =
     (case project_to_surface opts (stepped_points E gnp opts m) of
        None \<Rightarrow> None
      | Some new_points \<Rightarrow>
          Some (flip_until_delaunay E (m\<lparr>points := new_points\<rparr>), clamped_diff E gnp opts m))"

section \<open>The loop and its exit\<close>

definition truthy :: "string option \<Rightarrow> bool" where
  "truthy s = (case s of None \<Rightarrow> False | Some t \<Rightarrow> t \<noteq> [])"

text \<open>Lines 148 and 149.\<close>

definition diff_norm_2 :: "vec list \<Rightarrow> real list" where
  "diff_norm_2 diff = map (\<lambda>d. dot d d) diff"

definition is_final :: "real \<Rightarrow> int \<Rightarrow> int \<Rightarrow> vec list \<Rightarrow> bool" where
  "is_final tol max_num_steps k diff =
     (list_all (\<lambda>x. x < tol ^ 2) (diff_norm_2 diff) \<or> k \<ge> max_num_steps)"

text \<open>Lines 151 to 170: what one pass prints, saves and reports. The text of the
  line printed at the end is not modelled.\<close>

definition pass_events :: "options \<Rightarrow> bool \<Rightarrow> int \<Rightarrow> event list" where
  "pass_events opts final k =
     (if final \<and> verbose opts then [PrintFinal k] else []) @
     (if truthy (step_filename_format opts) then [Save k] else []) @
     (if callback opts then [Callback k] else [])"

text \<open>Line 175: \<^verbatim>\<open>numpy.max\<close> raises ValueError on an empty array.\<close>

definition return_value :: "int \<Rightarrow> vec list \<Rightarrow> error + int \<times> real" where
  "return_value k diff =
     (case map sqrt (diff_norm_2 diff) of
        [] \<Rightarrow> Inl ValueError
      | x # xs \<Rightarrow> Inr (k, fold max xs x))"

text \<open>Lines 88 to 175. The loop variable \<open>k\<close> is the count before the pass.\<close>

function optimize_loop ::
  "services \<Rightarrow> (mesh \<Rightarrow> vec list) \<Rightarrow> real \<Rightarrow> int \<Rightarrow> options \<Rightarrow> int \<Rightarrow> mesh \<Rightarrow> event list
     \<Rightarrow> run option" where
  "optimize_loop E gnp tol max_num_steps opts k m evs =
     (case iteration E gnp opts m of
        None \<Rightarrow> None
      | Some (m', diff) \<Rightarrow>
          (if is_final tol max_num_steps (k + 1) diff then
             Some \<lparr>retval = return_value (k + 1) diff, k_final = k + 1, last_diff = diff,
                   mesh_final = m', out = evs @ pass_events opts True (k + 1)\<rparr>
           else
             optimize_loop E gnp tol max_num_steps opts (k + 1) m'
               (evs @ pass_events opts False (k + 1))))"
  by pat_completeness auto
termination
  by (relation "measure (\<lambda>(E, gnp, tol, max_num_steps, opts, k, m, evs). nat (max_num_steps - k))")
     (auto simp: is_final_def)

text \<open>Lines 68 to 86, then the loop.\<close>

definition u_optimize ::
  "services \<Rightarrow> (mesh \<Rightarrow> vec list) \<Rightarrow> mesh \<Rightarrow> real \<Rightarrow> int \<Rightarrow> options \<Rightarrow> run option" where
  "u_optimize E gnp m tol max_num_steps opts =
     optimize_loop E gnp tol max_num_steps opts 0 (flip_until_delaunay E m)
       ((if verbose opts then [PrintBefore] else []) @
        (if truthy (step_filename_format opts) then [Save 0] else []) @
        (if callback opts then [Callback 0] else []))"

section \<open>The method table and \<^verbatim>\<open>optimize\<close>\<close>

definition methods :: "string \<rightharpoonup> strategy" where
  "methods = [
     ''lloyd'' \<mapsto> Cvt_lloyd,
     ''cvt-diaognal'' \<mapsto> Cvt_lloyd,
     ''cvt-block-diagonal'' \<mapsto> Cvt_block_diagonal,
     ''cvt-full'' \<mapsto> Cvt_full,
     ''cpt-linear-solve'' \<mapsto> Cpt_linear_solve,
     ''cpt-fixed-point'' \<mapsto> Cpt_fixed_point,
     ''cpt-quasi-newton'' \<mapsto> Cpt_quasi_newton,
     ''laplace'' \<mapsto> Laplace,
     ''odt-fixed-point'' \<mapsto> Odt_fixed_point]"

text \<open>\<^verbatim>\<open>str.lower\<close> on the letters of ASCII; a \<open>string\<close> is a list of bytes and the
  bytes of other characters are left as they are.\<close>

definition lower_char :: "char \<Rightarrow> char" where
  "lower_char c =
     (if of_char c \<ge> (65::nat) \<and> of_char c \<le> (90::nat) then char_of (of_char c + (32::nat)) else c)"

definition lower :: "string \<Rightarrow> string" where
  "lower s = map lower_char s"

definition is_sep :: "char \<Rightarrow> bool" where
  "is_sep c = (c = CHR ''-'' \<or> c = CHR '' '' \<or> c = CHR ''('' \<or> c = CHR '')'')"

text \<open>\<^verbatim>\<open>re.split("-| |\\(|\\)", s)\<close>: the pieces between the separators, the empty
  ones included.\<close>

fun re_split :: "string \<Rightarrow> string list" where
  "re_split [] = [[]]"
| "re_split (c # cs) =
     (if is_sep c then [] # re_split cs
      else (case re_split cs of t # ts \<Rightarrow> (c # t) # ts | [] \<Rightarrow> [[c]]))"

fun join :: "string \<Rightarrow> string list \<Rightarrow> string" where
  "join sep [] = []"
| "join sep [t] = t"
| "join sep (t # ts) = t @ sep @ join sep ts"

text \<open>Lines 32 to 34.\<close>

definition normalize :: "string \<Rightarrow> string" where
  "normalize method = join ''-'' (filter (\<lambda>item. item \<noteq> []) (re_split (lower method)))"

text \<open>What a call of \<^verbatim>\<open>optimize\<close> leaves: the exception or the value returned
  (\<open>None\<close> for Python's None), the mesh and the events.\<close>

record outcome =
  returned :: "error + (int \<times> real) option"
  mesh_after :: mesh
  events :: "event list"

definition of_run :: "run \<Rightarrow> outcome" where
  "of_run r =
     \<lparr>returned = (case retval r of Inl e \<Rightarrow> Inl e | Inr v \<Rightarrow> Inr (Some v)),
      mesh_after = mesh_final r, events = out r\<rparr>"

text \<open>Lines 38 to 43, the branch that hands the mesh to \<^verbatim>\<open>odt.nonlinear_optimization\<close>.
  The \<^verbatim>\<open>assert\<close> is the one of an interpreter that runs assertions, which is
  Python's default.\<close>

definition nonlinear_path ::
  "services \<Rightarrow> mesh \<Rightarrow> string \<Rightarrow> real \<Rightarrow> int \<Rightarrow> options \<Rightarrow> outcome" where
  "nonlinear_path E m min_method tol max_num_steps kwargs =
     (case omega kwargs of
        Some w \<Rightarrow>
          (if w = 1 then
             \<lparr>returned = Inr None,
              mesh_after = nonlinear_optimization E m min_method tol max_num_steps
                             (kwargs\<lparr>omega := None\<rparr>),
              events = []\<rparr>
           else \<lparr>returned = Inl AssertionError, mesh_after = m, events = []\<rparr>)
      | None \<Rightarrow>
          \<lparr>returned = Inr None,
           mesh_after = nonlinear_optimization E m min_method tol max_num_steps kwargs,
           events = []\<rparr>)"

text \<open>Lines 29 to 45.\<close>

definition optimize ::
  "services \<Rightarrow> mesh \<Rightarrow> string \<Rightarrow> real \<Rightarrow> int \<Rightarrow> options \<Rightarrow> outcome option" where
  "optimize E m method tol max_num_steps kwargs =
     (let normalized_method = normalize method in
      if take 3 normalized_method = ''odt'' \<and> drop 4 normalized_method \<noteq> ''fixed-point'' then
        Some (nonlinear_path E m (drop 4 normalized_method) tol max_num_steps kwargs)
      else
        (case methods normalized_method of
           None \<Rightarrow> Some \<lparr>returned = Inl KeyError, mesh_after = m, events = []\<rparr>
         | Some s \<Rightarrow>
             map_option of_run
               (u_optimize E (strategy_new_points E s) m tol max_num_steps kwargs)))"

section \<open>Notions used in the statements\<close>

text \<open>The cells that a vertex belongs to, by their row numbers, and the inradii that
  \<^verbatim>\<open>mesh.cell_inradius\<close> reports for them.\<close>

definition cell_vertices :: "nat \<times> nat \<times> nat \<Rightarrow> nat list" where
  "cell_vertices c = (case c of (a, b, c') \<Rightarrow> [a, b, c'])"

definition incident_cells :: "mesh \<Rightarrow> nat \<Rightarrow> nat list" where
  "incident_cells m v =
     filter (\<lambda>c. v \<in> set (cell_vertices (cells m ! c))) [0..<length (cells m)]"

definition incident_radii :: "services \<Rightarrow> mesh \<Rightarrow> nat \<Rightarrow> real list" where
  "incident_radii E m v = map (\<lambda>c. cell_inradius E m ! c) (incident_cells m v)"

definition same_shape :: "vec list \<Rightarrow> vec list \<Rightarrow> bool" where
  "same_shape a b = list_all2 (\<lambda>x y. length x = length y) a b"

text \<open>The shapes that numpy needs for one pass to run without an IndexError or a
  ValueError: the proposal has the shape of \<^verbatim>\<open>mesh.points\<close>, the boundary mask has
  one entry per point, \<^verbatim>\<open>boundary_step\<close> keeps the shape of its argument, there is
  one inradius per cell and every cell names three rows of \<^verbatim>\<open>mesh.points\<close>. The
  last conjunct is the contract of \<^verbatim>\<open>mesh.cell_inradius\<close>: a radius is not negative.\<close>

definition wf_pass :: "services \<Rightarrow> (mesh \<Rightarrow> vec list) \<Rightarrow> options \<Rightarrow> mesh \<Rightarrow> bool" where
  "wf_pass E gnp opts m =
     (same_shape (gnp m) (points m) \<and>
      list_all (\<lambda>p. length p = length (hd (points m))) (points m) \<and>
      length (is_boundary_point E m) = length (points m) \<and>
      (case boundary_step opts of
         None \<Rightarrow> True
       | Some bs \<Rightarrow>
           same_shape (bs (mask_select (gnp m) (is_boundary_point E m)))
             (mask_select (gnp m) (is_boundary_point E m))) \<and>
      length (cell_inradius E m) = length (cells m) \<and>
      list_all (\<lambda>c. list_all (\<lambda>j. j < length (points m)) (cell_vertices c)) (cells m) \<and>
      list_all (\<lambda>r. 0 \<le> r) (cell_inradius E m))"

text \<open>One correction pass in the words of the specification: every point moves
  against its gradient, scaled by the field value over the squared length of the
  gradient. A list of points is within the tolerance when no absolute field value
  exceeds it.\<close>

definition newton_pass :: "surface \<Rightarrow> vec list \<Rightarrow> vec list" where
  "newton_pass S ps =
     map (\<lambda>p. vsub p (scale (surf_f S p / dot (surf_grad S p) (surf_grad S p)) (surf_grad S p))) ps"

definition within_tol :: "surface \<Rightarrow> real \<Rightarrow> vec list \<Rightarrow> bool" where
  "within_tol S tol ps = list_all (\<lambda>p. \<bar>surf_f S p\<bar> \<le> tol) ps"

text \<open>The gradient does not vanish at any point that the passes reach, so that no
  pass divides by zero.\<close>

definition grad_nonzero :: "surface \<Rightarrow> vec list \<Rightarrow> bool" where
  "grad_nonzero S ps =
     (\<forall>k. \<forall>p \<in> set ((newton_pass S ^^ k) ps). dot (surf_grad S p) (surf_grad S p) \<noteq> 0)"

text \<open>The mesh with which the loop, started with the counter \<open>k\<close> on the mesh \<open>m\<close>,
  enters its pass number \<open>j + 1\<close>, when it gets there: each pass before has returned
  and was not final.\<close>

fun pass_state ::
  "services \<Rightarrow> (mesh \<Rightarrow> vec list) \<Rightarrow> real \<Rightarrow> int \<Rightarrow> options \<Rightarrow> int \<Rightarrow> mesh \<Rightarrow> nat
     \<Rightarrow> mesh option" where
  "pass_state E gnp tol max_num_steps opts k m 0 = Some m"
| "pass_state E gnp tol max_num_steps opts k m (Suc j) =
     (case iteration E gnp opts m of
        None \<Rightarrow> None
      | Some (m', diff) \<Rightarrow>
          (if is_final tol max_num_steps (k + 1) diff then None
           else pass_state E gnp tol max_num_steps opts (k + 1) m' j))"

text \<open>The contract of \<^verbatim>\<open>mesh.flip_until_delaunay\<close>: it changes cells, not points.\<close>

definition flip_keeps_points :: "services \<Rightarrow> bool" where
  "flip_keeps_points E = (\<forall>m. points (flip_until_delaunay E m) = points m)"

section \<open>A mesh and collaborators for the examples\<close>

text \<open>A square of side 2 with its centre, cut into four triangles. The four corners
  are boundary points. The services report an inradius of 2/5 for every cell, leave
  the cells as they are and propose the current points; \<open>far_points\<close> proposes to
  move the centre by (3, 4).\<close>

definition square_mesh :: mesh where
  "square_mesh =
     \<lparr>points = [[0, 0], [2, 0], [2, 2], [0, 2], [1, 1]],
      cells = [(0, 1, 4), (1, 2, 4), (2, 3, 4), (3, 0, 4)]\<rparr>"

definition square_services :: services where
  "square_services =
     \<lparr>is_boundary_point = (\<lambda>m. [True, True, True, True, False]),
      cell_inradius = (\<lambda>m. [2 / 5, 2 / 5, 2 / 5, 2 / 5]),
      flip_until_delaunay = (\<lambda>m. m),
      strategy_new_points = (\<lambda>s m. points m),
      nonlinear_optimization = (\<lambda>m min_method tol max_num_steps kwargs. m)\<rparr>"

definition far_points :: "mesh \<Rightarrow> vec list" where
  "far_points m = (points m)[4 := [4, 5]]"

definition no_options :: options where
  "no_options =
     \<lparr>omega = None, method_name = None, verbose = False, callback = False,
      step_filename_format = None, implicit_surface = None, implicit_surface_tol = None,
      boundary_step = None\<rparr>"

text \<open>The line \<open>y = 0\<close> as an implicit surface: the field is the second coordinate and
  its gradient is (0, 1).\<close>

definition axis_surface :: surface where
  "axis_surface = \<lparr>surf_f = (\<lambda>p. p ! 1), surf_grad = (\<lambda>p. [0, 1])\<rparr>"

definition current_points :: "mesh \<Rightarrow> vec list" where
  "current_points m = points m"

definition axis_options :: options where
  "axis_options = no_options\<lparr>implicit_surface := Some axis_surface\<rparr>"

definition loose_options :: options where
  "loose_options = axis_options\<lparr>implicit_surface_tol := Some (3 / 2)\<rparr>"

text \<open>The field \<open>|y + 1| + 1\<close> with its gradient \<open>(0, sgn (y + 1))\<close>: it is at least 1
  everywhere, and a pass takes a point with \<open>y + 1 \<noteq> 0\<close> to one with \<open>y + 1\<close> equal to
  1 or -1, where the field is 2.\<close>

definition vee_surface :: surface where
  "vee_surface = \<lparr>surf_f = (\<lambda>p. \<bar>p ! 1 + 1\<bar> + 1), surf_grad = (\<lambda>p. [0, sgn (p ! 1 + 1)])\<rparr>"

definition vee_options :: options where
  "vee_options = no_options\<lparr>implicit_surface := Some vee_surface\<rparr>"

text \<open>A strategy that proposes to move every point by (1, 1).\<close>

definition shifted_points :: "mesh \<Rightarrow> vec list" where
  "shifted_points m = map (map (\<lambda>x. x + 1)) (points m)"

section \<open>Method names\<close>

lemma normalize_block_diagonal:
  "normalize ''ODT  (block diagonal)'' = ''odt-block-diagonal''"
  by code_simp

lemma normalize_block_diagonal_plain:
  "normalize ''odt-block-diagonal'' = ''odt-block-diagonal''"
  by code_simp

lemma methods_dom:
  "methods nm = Some s \<Longrightarrow>
     nm \<in> {''lloyd'', ''cvt-diaognal'', ''cvt-block-diagonal'', ''cvt-full'',
           ''cpt-linear-solve'', ''cpt-fixed-point'', ''cpt-quasi-newton'', ''laplace'',
           ''odt-fixed-point''}"
  by (simp add: methods_def split: if_splits)

lemma methods_not_nonlinear:
  assumes "methods nm = Some s"
  shows "\<not> (take 3 nm = ''odt'' \<and> drop 4 nm \<noteq> ''fixed-point'')"
  using methods_dom [OF assms] by auto

lemma lower_char_idem: "lower_char (lower_char c) = lower_char c"
  by (simp add: lower_char_def)

lemma lower_char_hyphen: "lower_char CHR ''-'' = CHR ''-''"
  by (simp add: lower_char_def)

lemma re_split_nonempty: "re_split s \<noteq> []"
  by (induction s) (auto split: list.splits)

lemma re_split_Cons:
  "re_split (c # cs) =
     (if is_sep c then [] # re_split cs else (c # hd (re_split cs)) # tl (re_split cs))"
  using re_split_nonempty [of cs] by (cases "re_split cs") auto

lemma re_split_no_sep: "t \<in> set (re_split s) \<Longrightarrow> c \<in> set t \<Longrightarrow> \<not> is_sep c"
proof (induction s arbitrary: t)
  case Nil
  then show ?case by simp
next
  case (Cons a s)
  obtain u us where u: "re_split s = u # us"
    using re_split_nonempty [of s] by (cases "re_split s") auto
  show ?case
  proof (cases "is_sep a")
    case True
    with Cons.prems have "t \<in> set (re_split s)"
      by auto
    from Cons.IH [OF this Cons.prems(2)] show ?thesis .
  next
    case False
    with Cons.prems(1) u consider "t = a # u" | "t \<in> set us"
      by auto
    then show ?thesis
    proof cases
      case 1
      with Cons.prems(2) have "c = a \<or> c \<in> set u"
        by auto
      then show ?thesis
        using False Cons.IH [of u] u by auto
    next
      case 2
      then have "t \<in> set (re_split s)"
        using u by simp
      from Cons.IH [OF this Cons.prems(2)] show ?thesis .
    qed
  qed
qed

lemma re_split_chars: "t \<in> set (re_split s) \<Longrightarrow> c \<in> set t \<Longrightarrow> c \<in> set s"
proof (induction s arbitrary: t)
  case Nil
  then show ?case by simp
next
  case (Cons a s)
  obtain u us where u: "re_split s = u # us"
    using re_split_nonempty [of s] by (cases "re_split s") auto
  show ?case
  proof (cases "is_sep a")
    case True
    with Cons.prems have "t \<in> set (re_split s)"
      by auto
    from Cons.IH [OF this Cons.prems(2)] show ?thesis by simp
  next
    case False
    with Cons.prems(1) u consider "t = a # u" | "t \<in> set us"
      by auto
    then show ?thesis
    proof cases
      case 1
      with Cons.prems(2) have "c = a \<or> c \<in> set u"
        by auto
      then show ?thesis
        using Cons.IH [of u] u by auto
    next
      case 2
      then have "t \<in> set (re_split s)"
        using u by simp
      from Cons.IH [OF this Cons.prems(2)] show ?thesis by simp
    qed
  qed
qed

lemma re_split_token: "\<forall>c \<in> set t. \<not> is_sep c \<Longrightarrow> re_split t = [t]"
  by (induction t) auto

lemma re_split_token_sep:
  "\<forall>c \<in> set t. \<not> is_sep c \<Longrightarrow> re_split (t @ CHR ''-'' # rest) = t # re_split rest"
  by (induction t) (auto simp: is_sep_def)

lemma join_Cons: "join sep (t # ts) = (if ts = [] then t else t @ sep @ join sep ts)"
  by (cases ts) simp_all

lemma tokens_join:
  "\<forall>t \<in> set ts. t \<noteq> [] \<and> (\<forall>c \<in> set t. \<not> is_sep c) \<Longrightarrow>
   filter (\<lambda>item. item \<noteq> []) (re_split (join ''-'' ts)) = ts"
proof (induction ts)
  case Nil
  then show ?case by simp
next
  case (Cons t ts)
  then have t: "t \<noteq> []" "\<forall>c \<in> set t. \<not> is_sep c"
    by simp_all
  show ?case
  proof (cases "ts = []")
    case True
    then show ?thesis
      using t by (simp add: re_split_token)
  next
    case False
    have "re_split (join ''-'' (t # ts)) = t # re_split (join ''-'' ts)"
      using False re_split_token_sep [OF t(2), of "join ''-'' ts"] by (simp add: join_Cons)
    then show ?thesis
      using Cons t by simp
  qed
qed

lemma lower_join: "lower (join ''-'' ts) = join ''-'' (map lower ts)"
proof -
  have "map lower_char (join ''-'' ts) = join ''-'' (map (map lower_char) ts)"
    by (induction ts) (simp_all add: join_Cons lower_char_hyphen)
  moreover have "lower = map lower_char"
    by (simp add: fun_eq_iff lower_def)
  ultimately show ?thesis
    by simp
qed

lemma normalize_idem: "normalize (normalize s) = normalize s"
proof -
  let ?ts = "filter (\<lambda>item. item \<noteq> []) (re_split (lower s))"
  have fixed: "lower t = t" if "t \<in> set ?ts" for t
  proof -
    have "lower_char c = c" if "c \<in> set t" for c
    proof -
      have "c \<in> set (lower s)"
        using \<open>t \<in> set ?ts\<close> that re_split_chars [of t "lower s" c] by simp
      then show ?thesis
        by (auto simp: lower_def lower_char_idem)
    qed
    then show ?thesis
      unfolding lower_def by (rule map_idI)
  qed
  have "map lower ?ts = ?ts"
    by (rule map_idI) (rule fixed)
  then have l: "lower (join ''-'' ?ts) = join ''-'' ?ts"
    by (simp only: lower_join)
  have "\<forall>t \<in> set ?ts. t \<noteq> [] \<and> (\<forall>c \<in> set t. \<not> is_sep c)"
    using re_split_no_sep by auto
  from tokens_join [OF this] show ?thesis
    by (simp only: normalize_def l)
qed

lemma is_sep_set: "is_sep c \<longleftrightarrow> c \<in> set ''- ()''"
  by (auto simp: is_sep_def)

lemma alphabet_lower:
  "map lower_char ''ABCDEFGHIJKLMNOPQRSTUVWXYZ'' = ''abcdefghijklmnopqrstuvwxyz''"
  by code_simp

lemma alphabet_codes: "map char_of [65..<91::nat] = ''ABCDEFGHIJKLMNOPQRSTUVWXYZ''"
  by code_simp

lemma lower_char_other: "(of_char c :: nat) < 65 \<or> (90::nat) < of_char c \<Longrightarrow> lower_char c = c"
  by (auto simp: lower_char_def)

lemma is_sep_code: "is_sep c \<longleftrightarrow> (of_char c :: nat) \<in> {45, 32, 40, 41}"
proof -
  have "c = d \<longleftrightarrow> (of_char c :: nat) = of_char d" for d
    by (simp only: of_char_eq_iff)
  then have "is_sep c \<longleftrightarrow> (of_char c :: nat) = of_char CHR ''-'' \<or> (of_char c :: nat) = of_char CHR '' '' \<or>
      (of_char c :: nat) = of_char CHR ''('' \<or> (of_char c :: nat) = of_char CHR '')''"
    by (simp only: is_sep_def)
  also have "\<dots> \<longleftrightarrow> (of_char c :: nat) \<in> {45, 32, 40, 41}"
    by simp
  finally show ?thesis .
qed

lemma is_sep_lower_char: "is_sep (lower_char c) = is_sep c"
  by (auto simp: is_sep_code lower_char_def)

lemma re_split_at_sep:
  "\<forall>x \<in> set t. \<not> is_sep x \<Longrightarrow> is_sep c \<Longrightarrow> re_split (t @ c # rest) = t # re_split rest"
  by (induction t) auto

lemma join_nonempty:
  "ts \<noteq> [] \<Longrightarrow> \<forall>t \<in> set ts. t \<noteq> [] \<Longrightarrow> join sep ts \<noteq> []"
  by (cases ts) (auto simp: join_Cons)

lemma normalize_Nil: "normalize [] = []"
  by (simp add: normalize_def lower_def)

lemma normalize_sep: "is_sep c \<Longrightarrow> normalize (c # s) = normalize s"
  by (simp add: normalize_def lower_def is_sep_lower_char)

lemma normalize_char_c:
  assumes "\<not> is_sep c" and u: "re_split (lower s) = u # us"
  shows "normalize (c # s) = join ''-'' ((lower_char c # u) # filter (\<lambda>item. item \<noteq> []) us)"
proof -
  have "re_split (lower (c # s)) = (lower_char c # u) # us"
    using assms by (simp add: lower_def is_sep_lower_char)
  then show ?thesis
    by (simp add: normalize_def)
qed

lemma join_nonempty_iff:
  "\<forall>t \<in> set ts. t \<noteq> [] \<Longrightarrow> join sep ts \<noteq> [] \<longleftrightarrow> ts \<noteq> []"
  by (cases ts) (simp_all add: join_Cons)

lemma normalize_tokens: "normalize s = join ''-'' (filter (\<lambda>item. item \<noteq> []) (re_split (lower s)))"
  by (simp only: normalize_def)

lemma normalize_char:
  assumes "\<not> is_sep c"
  shows "normalize (c # s) =
    lower_char c #
      (if s \<noteq> [] \<and> is_sep (hd s) \<and> normalize s \<noteq> [] then CHR ''-'' # normalize s
       else normalize s)"
proof -
  let ?F = "filter (\<lambda>item. item \<noteq> [])"
  obtain u us where u: "re_split (lower s) = u # us"
    using re_split_nonempty [of "lower s"] by (cases "re_split (lower s)") auto
  have n: "normalize s = join ''-'' (?F (u # us))"
    by (simp only: normalize_tokens u)
  note c = normalize_char_c [OF assms u]
  have ne: "join ''-'' (?F us) \<noteq> [] \<longleftrightarrow> ?F us \<noteq> []"
    by (rule join_nonempty_iff) simp
  show ?thesis
  proof (cases s)
    case Nil
    then have "u = []" "us = []"
      using u by (simp_all add: lower_def)
    with c show ?thesis
      by (simp add: Nil normalize_Nil)
  next
    case (Cons d s')
    show ?thesis
    proof (cases "is_sep d")
      case True
      then have "u = []"
        using u Cons by (simp add: lower_def is_sep_lower_char)
      then have n': "normalize s = join ''-'' (?F us)"
        using n by simp
      have "join ''-'' ([lower_char c] # ?F us) =
          lower_char c # (if ?F us = [] then [] else CHR ''-'' # join ''-'' (?F us))"
        by (simp add: join_Cons)
      then show ?thesis
        unfolding c n' \<open>u = []\<close> using Cons True ne by simp
    next
      case False
      then have "re_split (lower s) = (lower_char d # hd (re_split (lower s'))) # tl (re_split (lower s'))"
        using Cons by (simp add: lower_def is_sep_lower_char re_split_Cons del: re_split.simps)
      then have "u \<noteq> []"
        using u by auto
      then have n': "normalize s = join ''-'' (u # ?F us)"
        using n by simp
      have "join ''-'' ((lower_char c # u) # ?F us) = lower_char c # join ''-'' (u # ?F us)"
        by (simp add: join_Cons)
      then show ?thesis
        unfolding c n' using Cons False by simp
    qed
  qed
qed

text \<open>
  Claim C8. The normal form of a name is the hyphen-joined list of the non-empty
  pieces into which its lower-cased characters split at hyphens, spaces and
  parentheses. Each stage is fixed by what it does: \<open>lower_char\<close> takes the letters
  A to Z, which are the characters of codes 65 to 90, to a to z and keeps every other
  character; the separators are the four characters named; \<open>re_split\<close> cuts a
  string at its first separator and gives a string without separators back as its
  single piece; \<open>join\<close> puts the separator between consecutive pieces. Read from the
  left, the normal form drops a separator, and lower-cases any other character,
  followed by a hyphen exactly when a separator follows it and a piece comes after.
  The method name reaches the choice made by \<open>optimize\<close> only through its normal
  form: two names with the same normal form give the same call, for every mesh,
  every collaborator and every option. A normal form is its own normal form. The
  two spellings of the claim have the normal form \<^verbatim>\<open>odt-block-diagonal\<close>.
\<close>

theorem normalize_equivalence:
  "(normalize a = normalize b \<longrightarrow>
      optimize E m a tol max_num_steps kwargs = optimize E m b tol max_num_steps kwargs) \<and>
   normalize (normalize a) = normalize a \<and>
   normalize ''ODT  (block diagonal)'' = ''odt-block-diagonal'' \<and>
   normalize ''odt-block-diagonal'' = ''odt-block-diagonal'' \<and>
   normalize s = join ''-'' (filter (\<lambda>item. item \<noteq> []) (re_split (map lower_char s))) \<and>
   map lower_char ''ABCDEFGHIJKLMNOPQRSTUVWXYZ'' = ''abcdefghijklmnopqrstuvwxyz'' \<and>
   map char_of [65..<91::nat] = ''ABCDEFGHIJKLMNOPQRSTUVWXYZ'' \<and>
   ((of_char c :: nat) < 65 \<or> (90::nat) < of_char c \<longrightarrow> lower_char c = c) \<and>
   (is_sep c \<longleftrightarrow> c \<in> set ''- ()'') \<and>
   ((\<forall>x \<in> set t. \<not> is_sep x) \<longrightarrow> re_split t = [t]) \<and>
   ((\<forall>x \<in> set t. \<not> is_sep x) \<and> is_sep c \<longrightarrow> re_split (t @ c # rest) = t # re_split rest) \<and>
   join sep [] = [] \<and>
   join sep [t] = t \<and>
   join sep (t # u # ts) = t @ sep @ join sep (u # ts) \<and>
   normalize [] = [] \<and>
   (is_sep c \<longrightarrow> normalize (c # s) = normalize s) \<and>
   (\<not> is_sep c \<longrightarrow>
      normalize (c # s) =
        lower_char c #
          (if s \<noteq> [] \<and> is_sep (hd s) \<and> normalize s \<noteq> [] then CHR ''-'' # normalize s
           else normalize s))"
proof -
  have a: "normalize a = normalize b \<longrightarrow>
      optimize E m a tol max_num_steps kwargs = optimize E m b tol max_num_steps kwargs"
    by (simp add: optimize_def)
  have p: "normalize s = join ''-'' (filter (\<lambda>item. item \<noteq> []) (re_split (map lower_char s)))"
    by (simp add: normalize_def lower_def)
  have o: "(of_char c :: nat) < 65 \<or> (90::nat) < of_char c \<longrightarrow> lower_char c = c"
    using lower_char_other [of c] by blast
  have r1: "(\<forall>x \<in> set t. \<not> is_sep x) \<longrightarrow> re_split t = [t]"
    using re_split_token [of t] by blast
  have r2: "(\<forall>x \<in> set t. \<not> is_sep x) \<and> is_sep c \<longrightarrow> re_split (t @ c # rest) = t # re_split rest"
    using re_split_at_sep [of t c rest] by blast
  have j1: "join sep [] = []"
    by simp
  have j2: "join sep [t] = t"
    by simp
  have j3: "join sep (t # u # ts) = t @ sep @ join sep (u # ts)"
    by simp
  have n1: "is_sep c \<longrightarrow> normalize (c # s) = normalize s"
    using normalize_sep [of c s] by blast
  have n2: "\<not> is_sep c \<longrightarrow>
      normalize (c # s) =
        lower_char c #
          (if s \<noteq> [] \<and> is_sep (hd s) \<and> normalize s \<noteq> [] then CHR ''-'' # normalize s
           else normalize s)"
    using normalize_char [of c s] by blast
  show ?thesis
    by (intro conjI)
      (rule a, rule normalize_idem, rule normalize_block_diagonal,
       rule normalize_block_diagonal_plain, rule p, rule alphabet_lower, rule alphabet_codes,
       rule o, rule is_sep_set, rule r1, rule r2, rule j1, rule j2, rule j3, rule normalize_Nil,
       rule n1, rule n2)
qed

text \<open>Claim C8 on the spelling \<^verbatim>\<open>ODT  (block diagonal)\<close> and its parts.\<close>

theorem normalize_equivalence_witness:
  "normalize ''ODT  (block diagonal)'' = normalize ''odt-block-diagonal'' \<and>
   optimize square_services square_mesh ''ODT  (block diagonal)'' 1 10 no_options =
   optimize square_services square_mesh ''odt-block-diagonal'' 1 10 no_options \<and>
   (90::nat) < of_char CHR ''d'' \<and> lower_char CHR ''d'' = CHR ''d'' \<and>
   is_sep CHR ''('' \<and> \<not> is_sep CHR ''O'' \<and>
   re_split ''odt'' = [''odt''] \<and>
   re_split (''odt'' @ CHR ''('' # ''block'') = ''odt'' # re_split ''block'' \<and>
   normalize (CHR ''('' # ''block'') = normalize ''block'' \<and>
   normalize (CHR ''O'' # ''DT  (block'') = CHR ''o'' # normalize ''DT  (block'' \<and>
   normalize (CHR ''T'' # ''  (block'') = CHR ''t'' # CHR ''-'' # normalize ''  (block''"
proof -
  note P = normalize_equivalence [where a = "''ODT  (block diagonal)''" and b = "''odt-block-diagonal''"
      and E = square_services and m = square_mesh and tol = 1 and max_num_steps = 10
      and kwargs = no_options and s = "''block''" and c = "CHR ''(''" and t = "''odt''"
      and rest = "''block''" and sep = "''-''" and u = "''block''" and ts = "[]"]
  note O = normalize_equivalence [where a = "''ODT  (block diagonal)''" and b = "''odt-block-diagonal''"
      and E = square_services and m = square_mesh and tol = 1 and max_num_steps = 10
      and kwargs = no_options and s = "''DT  (block''" and c = "CHR ''O''" and t = "''odt''"
      and rest = "''block''" and sep = "''-''" and u = "''block''" and ts = "[]"]
  note T = normalize_equivalence [where a = "''ODT  (block diagonal)''" and b = "''odt-block-diagonal''"
      and E = square_services and m = square_mesh and tol = 1 and max_num_steps = 10
      and kwargs = no_options and s = "''  (block''" and c = "CHR ''T''" and t = "''odt''"
      and rest = "''block''" and sep = "''-''" and u = "''block''" and ts = "[]"]
  note D = normalize_equivalence [where a = "''ODT  (block diagonal)''" and b = "''odt-block-diagonal''"
      and E = square_services and m = square_mesh and tol = 1 and max_num_steps = 10
      and kwargs = no_options and s = "''block''" and c = "CHR ''d''" and t = "''odt''"
      and rest = "''block''" and sep = "''-''" and u = "''block''" and ts = "[]"]
  have e: "normalize ''ODT  (block diagonal)'' = normalize ''odt-block-diagonal''"
    by (simp only: normalize_block_diagonal normalize_block_diagonal_plain)
  have s1: "is_sep CHR ''(''" "\<not> is_sep CHR ''O''" "\<not> is_sep CHR ''T''"
    "\<forall>x \<in> set ''odt''. \<not> is_sep x"
    by (simp_all add: is_sep_def)
  have l: "lower_char CHR ''O'' = CHR ''o''" "lower_char CHR ''T'' = CHR ''t''"
    by code_simp+
  have d: "(90::nat) < of_char CHR ''d''"
    by simp
  have n: "normalize ''  (block'' \<noteq> []"
  proof -
    have "normalize ''  (block'' = ''block''"
      by code_simp
    then show ?thesis
      by simp
  qed
  have c1: "optimize square_services square_mesh ''ODT  (block diagonal)'' 1 10 no_options =
      optimize square_services square_mesh ''odt-block-diagonal'' 1 10 no_options"
    using P [THEN conjunct1] e by (rule mp)
  have c2: "lower_char CHR ''d'' = CHR ''d''"
    using D [THEN conjunct2, THEN conjunct2, THEN conjunct2, THEN conjunct2, THEN conjunct2, THEN conjunct2, THEN conjunct2, THEN conjunct1] d by blast
  have c3: "re_split ''odt'' = [''odt'']"
    using P [THEN conjunct2, THEN conjunct2, THEN conjunct2, THEN conjunct2, THEN conjunct2, THEN conjunct2, THEN conjunct2, THEN conjunct2, THEN conjunct2, THEN conjunct1] s1(4) by (rule mp)
  have c4: "re_split (''odt'' @ CHR ''('' # ''block'') = ''odt'' # re_split ''block''"
    using P [THEN conjunct2, THEN conjunct2, THEN conjunct2, THEN conjunct2, THEN conjunct2, THEN conjunct2, THEN conjunct2, THEN conjunct2, THEN conjunct2, THEN conjunct2, THEN conjunct1] s1(1,4) by blast
  have c5: "normalize (CHR ''('' # ''block'') = normalize ''block''"
    using P [THEN conjunct2, THEN conjunct2, THEN conjunct2, THEN conjunct2, THEN conjunct2, THEN conjunct2, THEN conjunct2, THEN conjunct2, THEN conjunct2, THEN conjunct2, THEN conjunct2, THEN conjunct2, THEN conjunct2, THEN conjunct2, THEN conjunct2, THEN conjunct1] s1(1) by (rule mp)
  have "normalize (CHR ''O'' # ''DT  (block'') =
      lower_char CHR ''O'' #
        (if ''DT  (block'' \<noteq> [] \<and> is_sep (hd ''DT  (block'') \<and> normalize ''DT  (block'' \<noteq> []
         then CHR ''-'' # normalize ''DT  (block'' else normalize ''DT  (block'')"
    using O [THEN conjunct2, THEN conjunct2, THEN conjunct2, THEN conjunct2, THEN conjunct2, THEN conjunct2, THEN conjunct2, THEN conjunct2, THEN conjunct2, THEN conjunct2, THEN conjunct2, THEN conjunct2, THEN conjunct2, THEN conjunct2, THEN conjunct2, THEN conjunct2] s1(2) by (rule mp)
  then have c6: "normalize (CHR ''O'' # ''DT  (block'') = CHR ''o'' # normalize ''DT  (block''"
    by (simp add: l is_sep_def)
  have "normalize (CHR ''T'' # ''  (block'') =
      lower_char CHR ''T'' #
        (if ''  (block'' \<noteq> [] \<and> is_sep (hd ''  (block'') \<and> normalize ''  (block'' \<noteq> []
         then CHR ''-'' # normalize ''  (block'' else normalize ''  (block'')"
    using T [THEN conjunct2, THEN conjunct2, THEN conjunct2, THEN conjunct2, THEN conjunct2, THEN conjunct2, THEN conjunct2, THEN conjunct2, THEN conjunct2, THEN conjunct2, THEN conjunct2, THEN conjunct2, THEN conjunct2, THEN conjunct2, THEN conjunct2, THEN conjunct2] s1(3) by (rule mp)
  then have c7: "normalize (CHR ''T'' # ''  (block'') = CHR ''t'' # CHR ''-'' # normalize ''  (block''"
    using n by (simp add: l is_sep_def)
  show ?thesis
    by (intro conjI) (rule e, rule c1, rule d, rule c2, rule s1(1), rule s1(2), rule c3, rule c4,
      rule c5, rule c6, rule c7)
qed

text \<open>
  Claim C7. A name whose normal form starts with \<^verbatim>\<open>odt-\<close> and does not go on with
  \<^verbatim>\<open>fixed-point\<close> takes the branch of the nonlinear optimizer, which receives the
  rest of the normal form as its method; the driver is not called. That branch is
  the definition \<open>nonlinear_path\<close>: the check of \<^verbatim>\<open>omega\<close>, then the call of the
  optimizer, which is the whole of it when no \<^verbatim>\<open>omega\<close> is passed. A name whose
  normal form is a key of the table, \<^verbatim>\<open>odt-fixed-point\<close> among them, runs the driver
  with the \<^verbatim>\<open>get_new_points\<close> of its table entry.
\<close>

theorem odt_routing:
  "(take 4 (normalize method) = ''odt-'' \<and> drop 4 (normalize method) \<noteq> ''fixed-point'' \<longrightarrow>
      optimize E m method tol max_num_steps kwargs =
        Some (nonlinear_path E m (drop 4 (normalize method)) tol max_num_steps kwargs)) \<and>
   (take 4 (normalize method) = ''odt-'' \<and> drop 4 (normalize method) \<noteq> ''fixed-point'' \<and>
    omega kwargs = None \<longrightarrow>
      optimize E m method tol max_num_steps kwargs =
        Some \<lparr>returned = Inr None,
              mesh_after = nonlinear_optimization E m (drop 4 (normalize method)) tol
                             max_num_steps kwargs,
              events = []\<rparr>) \<and>
   (methods (normalize method) = Some s \<longrightarrow>
      optimize E m method tol max_num_steps kwargs =
        map_option of_run (u_optimize E (strategy_new_points E s) m tol max_num_steps kwargs)) \<and>
   methods ''odt-fixed-point'' = Some Odt_fixed_point"
proof (intro conjI impI)
  assume h: "take 4 (normalize method) = ''odt-'' \<and> drop 4 (normalize method) \<noteq> ''fixed-point''"
  then have "take 3 (take 4 (normalize method)) = ''odt''"
    by simp
  then have "take 3 (normalize method) = ''odt''"
    by simp
  with h show "optimize E m method tol max_num_steps kwargs =
      Some (nonlinear_path E m (drop 4 (normalize method)) tol max_num_steps kwargs)"
    by (simp add: optimize_def)
next
  assume h: "take 4 (normalize method) = ''odt-'' \<and> drop 4 (normalize method) \<noteq> ''fixed-point'' \<and>
    omega kwargs = None"
  then have "take 3 (take 4 (normalize method)) = ''odt''"
    by simp
  then have "take 3 (normalize method) = ''odt''"
    by simp
  with h show "optimize E m method tol max_num_steps kwargs =
      Some \<lparr>returned = Inr None,
            mesh_after = nonlinear_optimization E m (drop 4 (normalize method)) tol
                           max_num_steps kwargs,
            events = []\<rparr>"
    by (simp add: optimize_def nonlinear_path_def)
next
  assume h: "methods (normalize method) = Some s"
  have "(if take 3 (normalize method) = ''odt'' \<and> drop 4 (normalize method) \<noteq> ''fixed-point''
         then x else y) = y" for x y :: "outcome option"
    using methods_not_nonlinear [OF h] by (rule if_not_P)
  with h
  show "optimize E m method tol max_num_steps kwargs =
      map_option of_run (u_optimize E (strategy_new_points E s) m tol max_num_steps kwargs)"
    by (simp add: optimize_def Let_def)
next
  show "methods ''odt-fixed-point'' = Some Odt_fixed_point"
    by (simp add: methods_def)
qed

theorem odt_routing_witness:
  "take 4 (normalize ''ODT  (block diagonal)'') = ''odt-'' \<and>
   drop 4 (normalize ''ODT  (block diagonal)'') \<noteq> ''fixed-point'' \<and>
   optimize square_services square_mesh ''ODT  (block diagonal)'' 1 10 no_options =
     Some (nonlinear_path square_services square_mesh ''block-diagonal'' 1 10 no_options) \<and>
   omega no_options = None \<and>
   optimize square_services square_mesh ''ODT  (block diagonal)'' 1 10 no_options =
     Some \<lparr>returned = Inr None,
           mesh_after = nonlinear_optimization square_services square_mesh ''block-diagonal'' 1 10
                          no_options,
           events = []\<rparr> \<and>
   methods (normalize ''odt-block-diagonal'') = None \<and>
   methods (normalize ''ODT (fixed point)'') = Some Odt_fixed_point \<and>
   optimize square_services square_mesh ''ODT (fixed point)'' 1 10 no_options =
     map_option of_run
       (u_optimize square_services (strategy_new_points square_services Odt_fixed_point)
          square_mesh 1 10 no_options)"
proof -
  have n: "normalize ''ODT (fixed point)'' = ''odt-fixed-point''"
    by code_simp
  have k: "methods ''odt-fixed-point'' = Some Odt_fixed_point"
    by (simp add: methods_def)
  have o: "omega no_options = None"
    by (simp add: no_options_def)
  show ?thesis
    using odt_routing [of "''ODT  (block diagonal)''" square_services square_mesh 1 10
        no_options Odt_fixed_point]
      odt_routing [of "''ODT (fixed point)''" square_services square_mesh 1 10
        no_options Odt_fixed_point]
    by (simp add: n k o normalize_block_diagonal normalize_block_diagonal_plain methods_def
        nonlinear_path_def)
qed

text \<open>
  Claim C9. On the branch of the nonlinear optimizer, a keyword argument
  \<^verbatim>\<open>omega\<close> other than 1.0 ends the call with the AssertionError: the mesh is the
  one passed in, whatever the optimizer would do with it. With \<^verbatim>\<open>omega\<close> equal to
  1.0 the optimizer receives the keyword arguments without \<^verbatim>\<open>omega\<close>.
\<close>

theorem invalid_omega:
  "(take 3 (normalize method) = ''odt'' \<and> drop 4 (normalize method) \<noteq> ''fixed-point'' \<and>
    omega kwargs = Some w \<and> w \<noteq> 1 \<longrightarrow>
      optimize E m method tol max_num_steps kwargs =
        Some \<lparr>returned = Inl AssertionError, mesh_after = m, events = []\<rparr>) \<and>
   (take 3 (normalize method) = ''odt'' \<and> drop 4 (normalize method) \<noteq> ''fixed-point'' \<and>
    omega kwargs = Some 1 \<longrightarrow>
      optimize E m method tol max_num_steps kwargs =
        Some \<lparr>returned = Inr None,
              mesh_after = nonlinear_optimization E m (drop 4 (normalize method)) tol
                             max_num_steps (kwargs\<lparr>omega := None\<rparr>),
              events = []\<rparr> \<and>
      omega (kwargs\<lparr>omega := None\<rparr>) = None)"
  by (simp add: optimize_def nonlinear_path_def)

theorem invalid_omega_witness:
  "take 3 (normalize ''ODT  (block diagonal)'') = ''odt'' \<and>
   drop 4 (normalize ''ODT  (block diagonal)'') \<noteq> ''fixed-point'' \<and>
   optimize (square_services\<lparr>nonlinear_optimization := (\<lambda>m a b c d. m\<lparr>points := []\<rparr>)\<rparr>)
       square_mesh ''ODT  (block diagonal)'' 1 10 (no_options\<lparr>omega := Some (1 / 2)\<rparr>) =
     Some \<lparr>returned = Inl AssertionError, mesh_after = square_mesh, events = []\<rparr> \<and>
   optimize (square_services\<lparr>nonlinear_optimization := (\<lambda>m a b c d. m\<lparr>points := []\<rparr>)\<rparr>)
       square_mesh ''ODT  (block diagonal)'' 1 10 (no_options\<lparr>omega := Some 1\<rparr>) =
     Some \<lparr>returned = Inr None, mesh_after = square_mesh\<lparr>points := []\<rparr>, events = []\<rparr>"
  using invalid_omega [of "''ODT  (block diagonal)''" "no_options\<lparr>omega := Some (1 / 2)\<rparr>"
      "1 / 2" "square_services\<lparr>nonlinear_optimization := (\<lambda>m a b c d. m\<lparr>points := []\<rparr>)\<rparr>"
      square_mesh 1 10]
    invalid_omega [of "''ODT  (block diagonal)''" "no_options\<lparr>omega := Some 1\<rparr>"
      "1" "square_services\<lparr>nonlinear_optimization := (\<lambda>m a b c d. m\<lparr>points := []\<rparr>)\<rparr>"
      square_mesh 1 10]
  by (simp add: normalize_block_diagonal)

text \<open>
  Claim C10. The table has the key \<^verbatim>\<open>cvt-diaognal\<close>, bound to the Lloyd strategy,
  and no key \<^verbatim>\<open>cvt-diagonal\<close>. The first name runs the driver with the
  \<^verbatim>\<open>get_new_points\<close> of \<^verbatim>\<open>cvt.lloyd\<close>; the names \<^verbatim>\<open>cvt-diagonal\<close> and
  \<^verbatim>\<open>CVT (diagonal)\<close> end with the KeyError of the table lookup, the mesh being the
  one passed in.
\<close>

theorem registry_misspelling:
  "methods ''cvt-diaognal'' = Some Cvt_lloyd \<and>
   methods ''cvt-diagonal'' = None \<and>
   optimize E m ''cvt-diaognal'' tol max_num_steps kwargs =
     map_option of_run
       (u_optimize E (strategy_new_points E Cvt_lloyd) m tol max_num_steps kwargs) \<and>
   optimize E m ''cvt-diagonal'' tol max_num_steps kwargs =
     Some \<lparr>returned = Inl KeyError, mesh_after = m, events = []\<rparr> \<and>
   optimize E m ''CVT (diagonal)'' tol max_num_steps kwargs =
     Some \<lparr>returned = Inl KeyError, mesh_after = m, events = []\<rparr>"
proof -
  have a: "normalize ''cvt-diaognal'' = ''cvt-diaognal''"
    by code_simp
  have b: "normalize ''cvt-diagonal'' = ''cvt-diagonal''"
    by code_simp
  have c: "normalize ''CVT (diagonal)'' = ''cvt-diagonal''"
    by code_simp
  show ?thesis
    by (simp add: optimize_def a b c methods_def)
qed

section \<open>The clamp of the step\<close>

lemma dot_scale: "dot (scale c d) (scale c d) = c\<^sup>2 * dot d d"
  by (induction d) (simp_all add: dot_def scale_def power2_eq_square algebra_simps)

lemma dot_self_nonneg: "0 \<le> dot d d"
  by (induction d) (simp_all add: dot_def)

lemma step_length_scale: "step_length (scale c d) = \<bar>c\<bar> * step_length d"
  by (simp add: step_length_def dot_scale real_sqrt_mult)

lemma step_length_nonneg: "0 \<le> step_length d"
  by (simp add: step_length_def dot_self_nonneg)

lemma clamp_row_Inf: "clamp_row Inf d = d"
  by (simp add: clamp_row_def)

lemma clamp_row_within: "step_length d \<le> b \<Longrightarrow> clamp_row (Fin b) d = d"
  by (simp add: clamp_row_def)

lemma clamp_row_exceeding:
  assumes "0 \<le> b" and "b < step_length d"
  shows "clamp_row (Fin b) d = scale (b / step_length d) d"
    and "step_length (clamp_row (Fin b) d) = b"
    and "0 \<le> b / step_length d"
proof -
  show c: "clamp_row (Fin b) d = scale (b / step_length d) d"
    using assms by (simp add: clamp_row_def)
  have pos: "0 < step_length d"
    using assms by simp
  show "0 \<le> b / step_length d"
    using assms pos by simp
  then have "\<bar>b / step_length d\<bar> * step_length d = b / step_length d * step_length d"
    by (simp only: abs_of_nonneg)
  also have "\<dots> = b"
    using pos by simp
  finally show "step_length (clamp_row (Fin b) d) = b"
    by (simp only: c step_length_scale)
qed

lemma clamp_row_bounded:
  assumes "0 \<le> b"
  shows "step_length (clamp_row (Fin b) d) \<le> b"
proof (cases "b < step_length d")
  case True
  with assms show ?thesis by (simp add: clamp_row_exceeding(2))
next
  case False
  then show ?thesis by (simp add: clamp_row_within)
qed

lemma length_fold_update:
  "length (fold (\<lambda>(j, r) a. a[j := bmin (a ! j) r]) ps a) = length a"
  by (induction ps arbitrary: a) (auto split: prod.splits)

lemma nth_fold_update:
  "v < length a \<Longrightarrow>
   fold (\<lambda>(j, r) a. a[j := bmin (a ! j) r]) ps a ! v =
   fold (\<lambda>r b. bmin b r) (map snd (filter (\<lambda>p. fst p = v) ps)) (a ! v)"
proof (induction ps arbitrary: a)
  case Nil
  then show ?case by simp
next
  case (Cons p ps)
  obtain j r where p: "p = (j, r)" by (cases p)
  have len: "v < length (a[j := bmin (a ! j) r])"
    using Cons.prems by simp
  show ?case
    using Cons.IH [OF len] Cons.prems by (auto simp: p nth_list_update)
qed

lemma fold_bmin_Fin:
  "fold (\<lambda>r b. bmin b r) rs (Fin x) = Fin (Min (insert x (set rs)))"
proof (induction rs arbitrary: x)
  case Nil
  then show ?case by simp
next
  case (Cons r rs)
  have "Min (insert (min x r) (set rs)) = Min (insert x (insert r (set rs)))"
    by (cases "set rs = {}") (simp_all add: min.assoc min.commute)
  then show ?case
    using Cons.IH [of "min x r"] by simp
qed

lemma fold_bmin_Inf:
  "fold (\<lambda>r b. bmin b r) rs Inf = (if rs = [] then Inf else Fin (Min (set rs)))"
  by (cases rs) (simp_all add: fold_bmin_Fin)

lemma zip_reshape_repeat:
  "length cs = length rs \<Longrightarrow>
   zip (reshape_cells cs) (repeat3 rs) =
   concat (map2 (\<lambda>c r. map (\<lambda>j. (j, r)) (cell_vertices c)) cs rs)"
proof (induction cs rs rule: list_induct2)
  case Nil
  then show ?case by (simp add: reshape_cells_def repeat3_def)
next
  case (Cons c cs r rs)
  then show ?case
    by (cases c) (simp add: reshape_cells_def repeat3_def cell_vertices_def)
qed

lemma filter_concat_pairs:
  "length cs = length rs \<Longrightarrow>
   set (map snd (filter (\<lambda>p. fst p = v)
     (concat (map2 (\<lambda>c r. map (\<lambda>j. (j, r)) (cell_vertices c)) cs rs)))) =
   {rs ! c | c. c < length cs \<and> v \<in> set (cell_vertices (cs ! c))}"
proof (induction cs rs rule: list_induct2)
  case Nil
  then show ?case by simp
next
  case (Cons c cs r rs)
  have "{(r # rs) ! i | i. i < length (c # cs) \<and> v \<in> set (cell_vertices ((c # cs) ! i))} =
    (if v \<in> set (cell_vertices c) then {r} else {}) \<union>
    {rs ! i | i. i < length cs \<and> v \<in> set (cell_vertices (cs ! i))}"
    (is "?L = ?R")
  proof (intro set_eqI iffI)
    fix x assume "x \<in> ?L"
    then obtain i where i: "x = (r # rs) ! i" "i < length (c # cs)"
      "v \<in> set (cell_vertices ((c # cs) ! i))" by blast
    then show "x \<in> ?R" by (cases i) auto
  next
    fix x assume "x \<in> ?R"
    then consider "v \<in> set (cell_vertices c)" "x = r"
      | i where "x = rs ! i" "i < length cs" "v \<in> set (cell_vertices (cs ! i))"
      by (auto split: if_splits)
    then show "x \<in> ?L"
    proof cases
      case 1
      then have "x = (r # rs) ! 0 \<and> 0 < length (c # cs) \<and> v \<in> set (cell_vertices ((c # cs) ! 0))"
        by simp
      then show ?thesis by blast
    next
      case 2
      then have "x = (r # rs) ! Suc i \<and> Suc i < length (c # cs) \<and>
        v \<in> set (cell_vertices ((c # cs) ! Suc i))" by simp
      then show ?thesis by blast
    qed
  qed
  moreover have "set (map snd (filter (\<lambda>p. fst p = v) (map (\<lambda>j. (j, r)) (cell_vertices c)))) =
    (if v \<in> set (cell_vertices c) then {r} else {})"
    by (auto simp: image_iff)
  ultimately show ?case
    using Cons.IH by (simp del: set_map map_map add: image_Un)
qed

lemma set_incident_radii:
  "length (cell_inradius E m) = length (cells m) \<Longrightarrow>
   set (incident_radii E m v) =
   {cell_inradius E m ! c | c. c < length (cells m) \<and> v \<in> set (cell_vertices (cells m ! c))}"
  by (auto simp: incident_radii_def incident_cells_def)

lemma max_step_nth:
  assumes "length (cell_inradius E m) = length (cells m)" and "v < length (points m)"
  shows "max_step E m ! v =
    (if incident_cells m v = [] then Inf else Fin (Min (set (incident_radii E m v)) * 0.5))"
proof -
  let ?ps = "zip (reshape_cells (cells m)) (repeat3 (cell_inradius E m))"
  have s: "set (map snd (filter (\<lambda>p. fst p = v) ?ps)) = set (incident_radii E m v)"
    using assms(1) by (simp only: zip_reshape_repeat filter_concat_pairs set_incident_radii)
  have e: "(filter (\<lambda>p. fst p = v) ?ps = []) = (incident_cells m v = [])"
    using s by (metis incident_radii_def map_is_Nil_conv set_empty)
  have "max_step E m ! v = half (fold (\<lambda>r b. bmin b r) (map snd (filter (\<lambda>p. fst p = v) ?ps)) Inf)"
    using assms(2)
    by (simp add: max_step_def minimum_at_def length_fold_update nth_fold_update)
  then show ?thesis
    by (simp add: fold_bmin_Inf e s del: set_map)
qed

lemma length_mask_assign: "length (mask_assign xs bs vs) = length xs"
  by (induction xs bs vs rule: mask_assign.induct) simp_all

lemma nth_mask_assign_select:
  "length xs = length bs \<Longrightarrow> length bs = length ys \<Longrightarrow> i < length bs \<Longrightarrow>
   mask_assign xs bs (mask_select ys bs) ! i = (if bs ! i then ys ! i else xs ! i)"
proof (induction xs bs ys arbitrary: i rule: list_induct3)
  case Nil
  then show ?case by simp
next
  case (Cons x xs b bs y ys)
  then show ?case
    by (cases b; cases i) simp_all
qed

lemma same_shape_length: "same_shape a b \<Longrightarrow> length a = length b"
  by (simp add: same_shape_def list_all2_lengthD)

lemma length_proposal: "length (proposal E gnp opts m) = length (gnp m)"
  by (simp add: proposal_def Let_def length_mask_assign split: option.splits)

lemma length_raw_diff:
  "wf_pass E gnp opts m \<Longrightarrow> length (raw_diff E gnp opts m) = length (points m)"
  using same_shape_length [of "gnp m" "points m"]
  by (simp add: raw_diff_def length_proposal wf_pass_def)

lemma length_max_step: "length (max_step E m) = length (points m)"
  by (simp add: max_step_def minimum_at_def length_fold_update)

lemma length_clamped_diff:
  "wf_pass E gnp opts m \<Longrightarrow> length (clamped_diff E gnp opts m) = length (points m)"
  by (simp add: clamped_diff_def length_raw_diff length_max_step)

lemma nth_clamped_diff:
  "wf_pass E gnp opts m \<Longrightarrow> v < length (points m) \<Longrightarrow>
   clamped_diff E gnp opts m ! v = clamp_row (max_step E m ! v) (raw_diff E gnp opts m ! v)"
  by (simp add: clamped_diff_def length_raw_diff length_max_step)

lemma nth_stepped_points:
  "wf_pass E gnp opts m \<Longrightarrow> v < length (points m) \<Longrightarrow>
   stepped_points E gnp opts m ! v = vadd (points m ! v) (clamped_diff E gnp opts m ! v)"
  by (simp add: stepped_points_def length_clamped_diff)

lemma incident_radii_nonneg:
  assumes "wf_pass E gnp opts m" and "incident_cells m v \<noteq> []"
  shows "0 \<le> Min (set (incident_radii E m v))"
proof -
  have ne: "set (incident_radii E m v) \<noteq> {}"
    using assms(2) by (simp add: incident_radii_def)
  have "\<forall>r \<in> set (incident_radii E m v). 0 \<le> r"
    using assms(1) by (auto simp: incident_radii_def incident_cells_def wf_pass_def list_all_iff)
  then show ?thesis
    using ne by simp
qed

text \<open>
  Claim C1. In a pass on a mesh of well-formed arrays, the \<^verbatim>\<open>diff\<close> that the pass
  leaves is the clamped one, and the row of a vertex in it is what line 127 adds to
  its current position. When the vertex
  belongs to a cell, the length of that row is at most half the least inradius of its
  cells, taken on the mesh before the pass; a longer step is multiplied by a factor
  that is not negative and gets exactly that length, a step within the bound is kept.
  A vertex that belongs to no cell keeps its step. Float arithmetic is exact here.
\<close>

theorem step_clamp:
  assumes "wf_pass E gnp opts m" and "v < length (points m)"
  shows "(\<forall>m' d. iteration E gnp opts m = Some (m', d) \<longrightarrow> d = clamped_diff E gnp opts m) \<and>
         stepped_points E gnp opts m ! v =
           vadd (points m ! v) (clamped_diff E gnp opts m ! v) \<and>
         (incident_cells m v \<noteq> [] \<longrightarrow>
            step_length (clamped_diff E gnp opts m ! v) \<le> Min (set (incident_radii E m v)) / 2) \<and>
         (incident_cells m v \<noteq> [] \<and>
          step_length (raw_diff E gnp opts m ! v) > Min (set (incident_radii E m v)) / 2 \<longrightarrow>
            clamped_diff E gnp opts m ! v =
              scale (Min (set (incident_radii E m v)) / 2 / step_length (raw_diff E gnp opts m ! v))
                (raw_diff E gnp opts m ! v) \<and>
            0 \<le> Min (set (incident_radii E m v)) / 2 / step_length (raw_diff E gnp opts m ! v) \<and>
            step_length (clamped_diff E gnp opts m ! v) = Min (set (incident_radii E m v)) / 2) \<and>
         (incident_cells m v \<noteq> [] \<and>
          step_length (raw_diff E gnp opts m ! v) \<le> Min (set (incident_radii E m v)) / 2 \<longrightarrow>
            clamped_diff E gnp opts m ! v = raw_diff E gnp opts m ! v) \<and>
         (incident_cells m v = [] \<longrightarrow>
            clamped_diff E gnp opts m ! v = raw_diff E gnp opts m ! v)"
proof -
  let ?b = "Min (set (incident_radii E m v)) / 2"
  let ?d = "raw_diff E gnp opts m ! v"
  have len: "length (cell_inradius E m) = length (cells m)"
    using assms(1) by (simp add: wf_pass_def)
  have c: "clamped_diff E gnp opts m ! v = clamp_row (max_step E m ! v) ?d"
    using assms by (rule nth_clamped_diff)
  have none: "clamped_diff E gnp opts m ! v = ?d" if "incident_cells m v = []"
    using that by (simp add: c max_step_nth [OF len assms(2)] clamp_row_Inf)
  have some: "clamped_diff E gnp opts m ! v = clamp_row (Fin ?b) ?d \<and> 0 \<le> ?b"
    if "incident_cells m v \<noteq> []"
    using that incident_radii_nonneg [OF assms(1) that]
    by (simp add: c max_step_nth [OF len assms(2)])
  have bounded: "step_length (clamped_diff E gnp opts m ! v) \<le> ?b" if "incident_cells m v \<noteq> []"
    using some [OF that] clamp_row_bounded [of ?b ?d] by simp
  have exceeding: "clamped_diff E gnp opts m ! v = scale (?b / step_length ?d) ?d \<and>
      0 \<le> ?b / step_length ?d \<and> step_length (clamped_diff E gnp opts m ! v) = ?b"
    if "incident_cells m v \<noteq> []" and "?b < step_length ?d"
    using some [OF that(1)] clamp_row_exceeding [of ?b ?d] that(2) by simp
  have within: "clamped_diff E gnp opts m ! v = ?d"
    if "incident_cells m v \<noteq> []" and "step_length ?d \<le> ?b"
    using some [OF that(1)] that(2) by (simp add: clamp_row_within)
  have it: "\<forall>m' d. iteration E gnp opts m = Some (m', d) \<longrightarrow> d = clamped_diff E gnp opts m"
    by (auto simp: iteration_def split: option.splits)
  show ?thesis
    using it nth_stepped_points [OF assms] none bounded exceeding within by blast
qed

lemma square_wf: "wf_pass square_services far_points no_options square_mesh"
  by (simp add: wf_pass_def same_shape_def square_services_def far_points_def no_options_def
      square_mesh_def cell_vertices_def)

lemma square_radii: "incident_radii square_services square_mesh 4 = [2 / 5, 2 / 5, 2 / 5, 2 / 5]"
  by (simp add: incident_radii_def incident_cells_def square_services_def square_mesh_def
      cell_vertices_def upt_rec)

lemma square_incident: "incident_cells square_mesh 4 = [0, 1, 2, 3]"
  by (simp add: incident_cells_def square_mesh_def cell_vertices_def upt_rec)

lemma square_raw: "raw_diff square_services far_points no_options square_mesh ! 4 = [3, 4]"
  by (simp add: raw_diff_def proposal_def square_services_def far_points_def no_options_def
      square_mesh_def omega_value_def scale_def vsub_def)

lemma len34: "step_length [3, 4] = 5"
proof -
  have "dot [3, 4] [3, 4] = 5\<^sup>2"
    by (simp add: dot_def)
  then show ?thesis
    by (simp add: step_length_def)
qed

lemma len_clamped: "step_length [3 / 25, 4 / 25] = 1 / 5"
proof -
  have "dot [3 / 25, 4 / 25] [3 / 25, 4 / 25] = (1 / 5)\<^sup>2"
    by (simp add: dot_def power2_eq_square)
  then show ?thesis
    by (simp only: step_length_def real_sqrt_abs)
qed

text \<open>Claim C1 on the square: the centre is asked to move by (3, 4), of length 5, and
  moves by (3/25, 4/25), of length 1/5.\<close>

theorem step_clamp_witness:
  "wf_pass square_services far_points no_options square_mesh \<and>
   (4::nat) < length (points square_mesh) \<and>
   incident_cells square_mesh 4 \<noteq> [] \<and>
   step_length (raw_diff square_services far_points no_options square_mesh ! 4) = 5 \<and>
   Min (set (incident_radii square_services square_mesh 4)) / 2 = 1 / 5 \<and>
   clamped_diff square_services far_points no_options square_mesh ! 4 = [3 / 25, 4 / 25] \<and>
   step_length (clamped_diff square_services far_points no_options square_mesh ! 4) = 1 / 5 \<and>
   stepped_points square_services far_points no_options square_mesh ! 4 = [28 / 25, 29 / 25]"
proof -
  have n: "(4::nat) < length (points square_mesh)"
    by (simp add: square_mesh_def)
  have p: "points square_mesh ! 4 = [1, 1]"
    by (simp add: square_mesh_def)
  show ?thesis
    using step_clamp [OF square_wf n] n
    by (simp add: square_wf square_radii square_incident square_raw len34 len_clamped scale_def vadd_def p)
qed

section \<open>Boundary points\<close>

lemma vsub_self: "vsub p p = replicate (length p) 0"
  by (induction p) (simp_all add: vsub_def)

lemma scale_zeros: "scale c (replicate n 0) = replicate n 0"
  by (simp add: scale_def)

lemma step_length_zeros: "step_length (replicate n 0) = 0"
  by (induction n) (simp_all add: step_length_def dot_def)

lemma vadd_zeros: "vadd p (replicate (length p) 0) = p"
  by (induction p) (simp_all add: vadd_def)

lemma max_step_cases:
  assumes "wf_pass E gnp opts m" and "v < length (points m)"
  shows "max_step E m ! v = Inf \<or> (\<exists>b\<ge>0. max_step E m ! v = Fin b)"
proof (cases "incident_cells m v = []")
  case True
  then show ?thesis
    using assms by (simp add: max_step_nth wf_pass_def)
next
  case False
  have "max_step E m ! v = Fin (Min (set (incident_radii E m v)) * 0.5)"
    using False assms by (simp add: max_step_nth wf_pass_def)
  moreover have "0 \<le> Min (set (incident_radii E m v)) * 0.5"
    using incident_radii_nonneg [OF assms(1) False] by simp
  ultimately show ?thesis
    by blast
qed

lemma clamp_row_zeros:
  "b = Inf \<or> (\<exists>x\<ge>0. b = Fin x) \<Longrightarrow> clamp_row b (replicate n 0) = replicate n 0"
  by (auto simp: clamp_row_def step_length_zeros)

lemma proposal_boundary:
  assumes "wf_pass E gnp opts m" and "boundary_step opts = None"
    and "v < length (points m)" and "is_boundary_point E m ! v"
  shows "proposal E gnp opts m ! v = points m ! v"
proof -
  have l1: "length (gnp m) = length (is_boundary_point E m)"
    using assms(1) same_shape_length [of "gnp m" "points m"] by (simp add: wf_pass_def)
  have l2: "length (is_boundary_point E m) = length (points m)"
    using assms(1) by (simp add: wf_pass_def)
  show ?thesis
    using nth_mask_assign_select [OF l1 l2, of v] assms(2-4) l2
    by (simp add: proposal_def Let_def)
qed

lemma raw_diff_boundary:
  assumes "wf_pass E gnp opts m" and "boundary_step opts = None"
    and "v < length (points m)" and "is_boundary_point E m ! v"
  shows "raw_diff E gnp opts m ! v = replicate (length (points m ! v)) 0"
proof -
  have "length (proposal E gnp opts m) = length (points m)"
    using assms(1) same_shape_length [of "gnp m" "points m"]
    by (simp add: length_proposal wf_pass_def)
  then have "raw_diff E gnp opts m ! v =
      scale (omega_value opts) (vsub (proposal E gnp opts m ! v) (points m ! v))"
    using assms(3) by (simp add: raw_diff_def)
  then show ?thesis
    by (simp add: proposal_boundary [OF assms] vsub_self scale_zeros)
qed

lemma iteration_no_surface:
  "implicit_surface opts = None \<Longrightarrow>
   iteration E gnp opts m =
     Some (flip_until_delaunay E (m\<lparr>points := stepped_points E gnp opts m\<rparr>),
           clamped_diff E gnp opts m)"
  by (simp add: iteration_def project_to_surface_def)

text \<open>
  Claim C3, amended. Without a \<^verbatim>\<open>boundary_step\<close>, the clamped step of a boundary
  vertex is zero and line 127 gives it its current position. When no implicit
  surface is configured either, and the Delaunay repair keeps the points, that is
  its position after the pass.
\<close>

theorem boundary_freeze:
  assumes "wf_pass E gnp opts m" and "boundary_step opts = None"
    and "v < length (points m)" and "is_boundary_point E m ! v"
  shows "clamped_diff E gnp opts m ! v = replicate (length (points m ! v)) 0 \<and>
         stepped_points E gnp opts m ! v = points m ! v \<and>
         (implicit_surface opts = None \<and> flip_keeps_points E \<longrightarrow>
            map_option (\<lambda>r. points (fst r) ! v) (iteration E gnp opts m) = Some (points m ! v))"
proof -
  have c: "clamped_diff E gnp opts m ! v = replicate (length (points m ! v)) 0"
    using max_step_cases [OF assms(1,3)]
    by (simp only: nth_clamped_diff [OF assms(1,3)] raw_diff_boundary [OF assms] clamp_row_zeros)
  have s: "stepped_points E gnp opts m ! v = points m ! v"
    by (simp only: nth_stepped_points [OF assms(1,3)] c vadd_zeros)
  have "map_option (\<lambda>r. points (fst r) ! v) (iteration E gnp opts m) = Some (points m ! v)"
    if "implicit_surface opts = None" and "flip_keeps_points E"
    using that s by (simp add: iteration_no_surface flip_keeps_points_def)
  with c s show ?thesis
    by blast
qed

lemma square_shifted_wf: "wf_pass square_services shifted_points no_options square_mesh"
  by (simp add: wf_pass_def same_shape_def square_services_def shifted_points_def no_options_def
      square_mesh_def cell_vertices_def)

text \<open>Claim C3 on the square: the corner (2, 2) is proposed at (3, 3) and stays.\<close>

theorem boundary_freeze_witness:
  "wf_pass square_services shifted_points no_options square_mesh \<and>
   boundary_step no_options = None \<and>
   (2::nat) < length (points square_mesh) \<and>
   is_boundary_point square_services square_mesh ! 2 \<and>
   shifted_points square_mesh ! 2 = [3, 3] \<and>
   implicit_surface no_options = None \<and> flip_keeps_points square_services \<and>
   clamped_diff square_services shifted_points no_options square_mesh ! 2 = [0, 0] \<and>
   stepped_points square_services shifted_points no_options square_mesh ! 2 = [2, 2] \<and>
   map_option (\<lambda>r. points (fst r) ! 2)
     (iteration square_services shifted_points no_options square_mesh) = Some [2, 2]"
proof -
  have a: "boundary_step no_options = None" "implicit_surface no_options = None"
    by (simp_all add: no_options_def)
  have n: "(2::nat) < length (points square_mesh)" "points square_mesh ! 2 = [2, 2]"
    "shifted_points square_mesh ! 2 = [3, 3]"
    by (simp_all add: square_mesh_def shifted_points_def)
  have b: "is_boundary_point square_services square_mesh ! 2"
    by (simp add: square_services_def)
  have f: "flip_keeps_points square_services"
    by (simp add: flip_keeps_points_def square_services_def)
  show ?thesis
    using boundary_freeze [OF square_shifted_wf a(1) n(1) b] a n b f square_shifted_wf
    by (simp add: numeral_2_eq_2)
qed

lemma square_axis_wf: "wf_pass square_services current_points axis_options square_mesh"
  by (simp add: wf_pass_def same_shape_def square_services_def current_points_def no_options_def
      axis_options_def square_mesh_def cell_vertices_def)

lemma square_axis_stepped:
  "stepped_points square_services current_points axis_options square_mesh =
     [[0, 0], [2, 0], [2, 2], [0, 2], [1, 1]]"
  by (simp add: stepped_points_def clamped_diff_def raw_diff_def proposal_def max_step_def
      minimum_at_def reshape_cells_def repeat3_def square_services_def current_points_def
      square_mesh_def scale_def vsub_def vadd_def clamp_row_def step_length_def dot_def
      axis_options_def no_options_def omega_value_def Let_def numeral_eq_Suc)

section \<open>The correction towards the implicit surface\<close>

lemma newton_rows: "map2 (newton_row S) ps (map (surf_f S) ps) = newton_pass S ps"
  by (induction ps) (simp_all add: newton_pass_def newton_row_def Let_def)

lemma exceeding_iff: "list_ex (\<lambda>v. \<bar>v\<bar> > tol) (map (surf_f S) ps) = (\<not> within_tol S tol ps)"
  by (induction ps) (auto simp: within_tol_def)

lemma project_loop_unfold:
  "project_loop S tol ps (map (surf_f S) ps) =
     (if within_tol S tol ps then Some ps
      else project_loop S tol (newton_pass S ps) (map (surf_f S) (newton_pass S ps)))"
  by (subst project_loop.simps) (simp add: exceeding_iff newton_rows Let_def)

lemma project_loop_passes:
  "within_tol S tol ((newton_pass S ^^ n) ps) \<Longrightarrow>
   \<forall>k<n. \<not> within_tol S tol ((newton_pass S ^^ k) ps) \<Longrightarrow>
   project_loop S tol ps (map (surf_f S) ps) = Some ((newton_pass S ^^ n) ps)"
proof (induction n arbitrary: ps)
  case 0
  then show ?case
    by (simp add: project_loop_unfold)
next
  case (Suc n)
  have first: "\<not> within_tol S tol ps"
    using Suc.prems(2) by auto
  have "within_tol S tol ((newton_pass S ^^ n) (newton_pass S ps))"
    using Suc.prems(1) by (simp add: funpow_swap1)
  moreover have "\<forall>k<n. \<not> within_tol S tol ((newton_pass S ^^ k) (newton_pass S ps))"
  proof (intro allI impI)
    fix k assume "k < n"
    then have "\<not> within_tol S tol ((newton_pass S ^^ Suc k) ps)"
      using Suc.prems(2) by blast
    then show "\<not> within_tol S tol ((newton_pass S ^^ k) (newton_pass S ps))"
      by (simp add: funpow_swap1)
  qed
  ultimately have "project_loop S tol (newton_pass S ps) (map (surf_f S) (newton_pass S ps)) =
      Some ((newton_pass S ^^ n) (newton_pass S ps))"
    by (rule Suc.IH)
  then show ?case
    using first by (simp add: project_loop_unfold [of S tol ps] funpow_swap1)
qed

lemma project_loop_result:
  assumes "project_loop S tol ps fval = Some ps'"
  shows "fval = map (surf_f S) ps \<longrightarrow>
           (\<exists>n. ps' = (newton_pass S ^^ n) ps \<and> within_tol S tol ps' \<and>
                (\<forall>k<n. \<not> within_tol S tol ((newton_pass S ^^ k) ps)))"
proof (induct rule: project_loop.raw_induct [OF _ assms])
  case (1 loop S tol ps fval ps')
  show ?case
  proof
    assume fv: "fval = map (surf_f S) ps"
    show "\<exists>n. ps' = (newton_pass S ^^ n) ps \<and> within_tol S tol ps' \<and>
             (\<forall>k<n. \<not> within_tol S tol ((newton_pass S ^^ k) ps))"
    proof (cases "within_tol S tol ps")
      case True
      then have "ps' = ps"
        using 1(2) fv by (simp add: exceeding_iff)
      then have "ps' = (newton_pass S ^^ 0) ps \<and> within_tol S tol ps' \<and>
          (\<forall>k<0. \<not> within_tol S tol ((newton_pass S ^^ k) ps))"
        using True by simp
      then show ?thesis by blast
    next
      case False
      then have "loop S tol (newton_pass S ps) (map (surf_f S) (newton_pass S ps)) = Some ps'"
        using 1(2) fv by (simp add: exceeding_iff newton_rows Let_def)
      from 1(1) [OF this] obtain n where n:
        "ps' = (newton_pass S ^^ n) (newton_pass S ps)" "within_tol S tol ps'"
        "\<forall>k<n. \<not> within_tol S tol ((newton_pass S ^^ k) (newton_pass S ps))"
        by blast
      have "\<forall>k<Suc n. \<not> within_tol S tol ((newton_pass S ^^ k) ps)"
      proof (intro allI impI)
        fix k assume k: "k < Suc n"
        show "\<not> within_tol S tol ((newton_pass S ^^ k) ps)"
        proof (cases k)
          case 0
          then show ?thesis using False by simp
        next
          case (Suc j)
          then show ?thesis using n(3) k by (simp add: funpow_swap1)
        qed
      qed
      then have "ps' = (newton_pass S ^^ Suc n) ps \<and> within_tol S tol ps' \<and>
          (\<forall>k<Suc n. \<not> within_tol S tol ((newton_pass S ^^ k) ps))"
        using n(1,2) by (simp add: funpow_swap1)
      then show ?thesis by blast
    qed
  qed
qed

text \<open>
  Claim C6, amended. With an implicit surface configured: when every point is
  within the tolerance nothing moves; otherwise one pass moves every point, those
  within the tolerance too, and the loop goes on from the moved points with their
  field values computed anew. The loop returns exactly when some number of passes
  brings all points within the tolerance, and then after the least such number.
\<close>

theorem surface_correction:
  assumes "implicit_surface opts = Some S" and "grad_nonzero S ps"
  shows "(within_tol S (surface_tol opts) ps \<longrightarrow> project_to_surface opts ps = Some ps) \<and>
         (\<not> within_tol S (surface_tol opts) ps \<longrightarrow>
            project_to_surface opts ps = project_to_surface opts (newton_pass S ps)) \<and>
         (project_to_surface opts ps = Some ps' \<longleftrightarrow>
            (\<exists>n. ps' = (newton_pass S ^^ n) ps \<and> within_tol S (surface_tol opts) ps' \<and>
                 (\<forall>k<n. \<not> within_tol S (surface_tol opts) ((newton_pass S ^^ k) ps))))"
proof -
  have p: "project_to_surface opts qs = project_loop S (surface_tol opts) qs (map (surf_f S) qs)"
    for qs
    using assms(1) by (simp add: project_to_surface_def)
  have a: "within_tol S (surface_tol opts) ps \<longrightarrow> project_to_surface opts ps = Some ps"
    by (simp add: p project_loop_unfold)
  have b: "\<not> within_tol S (surface_tol opts) ps \<longrightarrow>
      project_to_surface opts ps = project_to_surface opts (newton_pass S ps)"
    by (simp add: p project_loop_unfold [of S _ ps])
  have c: "project_to_surface opts ps = Some ps' \<longleftrightarrow>
      (\<exists>n. ps' = (newton_pass S ^^ n) ps \<and> within_tol S (surface_tol opts) ps' \<and>
           (\<forall>k<n. \<not> within_tol S (surface_tol opts) ((newton_pass S ^^ k) ps)))"
  proof
    assume "project_to_surface opts ps = Some ps'"
    then have "project_loop S (surface_tol opts) ps (map (surf_f S) ps) = Some ps'"
      by (simp only: p)
    from project_loop_result [OF this]
    show "\<exists>n. ps' = (newton_pass S ^^ n) ps \<and> within_tol S (surface_tol opts) ps' \<and>
           (\<forall>k<n. \<not> within_tol S (surface_tol opts) ((newton_pass S ^^ k) ps))"
      by simp
  next
    assume "\<exists>n. ps' = (newton_pass S ^^ n) ps \<and> within_tol S (surface_tol opts) ps' \<and>
           (\<forall>k<n. \<not> within_tol S (surface_tol opts) ((newton_pass S ^^ k) ps))"
    then obtain n where n: "ps' = (newton_pass S ^^ n) ps"
      "within_tol S (surface_tol opts) ((newton_pass S ^^ n) ps)"
      "\<forall>k<n. \<not> within_tol S (surface_tol opts) ((newton_pass S ^^ k) ps)"
      by blast
    from project_loop_passes [OF n(2,3)] show "project_to_surface opts ps = Some ps'"
      by (simp only: p n(1))
  qed
  from a b c show ?thesis by blast
qed

lemma axis_pass:
  "newton_pass axis_surface [[0, 0], [2, 0], [2, 2], [0, 2], [1, 1]] =
     [[0, 0], [2, 0], [2, 0], [0, 0], [1, 0]]"
  by (simp add: newton_pass_def axis_surface_def dot_def scale_def vsub_def)

lemma axis_pass_fixed:
  "newton_pass axis_surface [[0, 0], [2, 0], [2, 0], [0, 0], [1, 0]] =
     [[0, 0], [2, 0], [2, 0], [0, 0], [1, 0]]"
  by (simp add: newton_pass_def axis_surface_def dot_def scale_def vsub_def)

lemma axis_grad_nonzero: "grad_nonzero axis_surface ps"
  by (simp add: grad_nonzero_def axis_surface_def dot_def)

lemma axis_project:
  assumes "0 \<le> tol" and "tol < 2"
  shows "project_loop axis_surface tol [[0, 0], [2, 0], [2, 2], [0, 2], [1, 1]]
      (map (surf_f axis_surface) [[0, 0], [2, 0], [2, 2], [0, 2], [1, 1]]) =
    Some [[0, 0], [2, 0], [2, 0], [0, 0], [1, 0]]"
proof -
  have w0: "\<not> within_tol axis_surface tol [[0, 0], [2, 0], [2, 2], [0, 2], [1, 1]]"
    using assms by (simp add: within_tol_def axis_surface_def)
  have w1: "within_tol axis_surface tol [[0, 0], [2, 0], [2, 0], [0, 0], [1, 0]]"
    using assms by (simp add: within_tol_def axis_surface_def)
  have "project_loop axis_surface tol [[0, 0], [2, 0], [2, 2], [0, 2], [1, 1]]
      (map (surf_f axis_surface) [[0, 0], [2, 0], [2, 2], [0, 2], [1, 1]]) =
    project_loop axis_surface tol [[0, 0], [2, 0], [2, 0], [0, 0], [1, 0]]
      (map (surf_f axis_surface) [[0, 0], [2, 0], [2, 0], [0, 0], [1, 0]])"
    using w0 by (simp only: project_loop_unfold [of _ _ "[[0, 0], [2, 0], [2, 2], [0, 2], [1, 1]]"]
        axis_pass if_False)
  also have "\<dots> = Some [[0, 0], [2, 0], [2, 0], [0, 0], [1, 0]]"
    using w1 by (simp only: project_loop_unfold [of _ _ "[[0, 0], [2, 0], [2, 0], [0, 0], [1, 0]]"]
        if_True)
  finally show ?thesis .
qed

text \<open>Claim C6 as stated fails: with tolerance 3/2 the point (1, 1) has the field
  value 1, within the tolerance, and is moved to (1, 0) by the pass that the
  points (2, 2) and (0, 2) cause.\<close>

theorem surface_correction_counterexample:
  "implicit_surface loose_options = Some axis_surface \<and>
   surface_tol loose_options = 3 / 2 \<and>
   \<bar>surf_f axis_surface [1, 1]\<bar> = 1 \<and>
   surf_grad axis_surface [1, 1] = [0, 1] \<and>
   project_to_surface loose_options [[0, 0], [2, 0], [2, 2], [0, 2], [1, 1]] =
     Some [[0, 0], [2, 0], [2, 0], [0, 0], [1, 0]]"
  using axis_project [of "3 / 2"]
  by (simp add: project_to_surface_def loose_options_def axis_options_def no_options_def
      surface_tol_def axis_surface_def)

text \<open>Claim C6, amended, on the same points: one pass, after which all are within
  the tolerance.\<close>

theorem surface_correction_witness:
  "implicit_surface loose_options = Some axis_surface \<and>
   grad_nonzero axis_surface [[0, 0], [2, 0], [2, 2], [0, 2], [1, 1]] \<and>
   \<not> within_tol axis_surface (surface_tol loose_options) [[0, 0], [2, 0], [2, 2], [0, 2], [1, 1]] \<and>
   within_tol axis_surface (surface_tol loose_options) [[0, 0], [2, 0], [2, 0], [0, 0], [1, 0]] \<and>
   project_to_surface loose_options [[0, 0], [2, 0], [2, 2], [0, 2], [1, 1]] =
     Some [[0, 0], [2, 0], [2, 0], [0, 0], [1, 0]]"
proof -
  have s: "implicit_surface loose_options = Some axis_surface"
    by (simp add: loose_options_def axis_options_def)
  have t: "surface_tol loose_options = 3 / 2"
    by (simp add: loose_options_def surface_tol_def)
  have w0: "\<not> within_tol axis_surface (3 / 2) [[0, 0], [2, 0], [2, 2], [0, 2], [1, 1]]"
    by (simp add: within_tol_def axis_surface_def)
  have w1: "within_tol axis_surface (3 / 2) [[0, 0], [2, 0], [2, 0], [0, 0], [1, 0]]"
    by (simp add: within_tol_def axis_surface_def)
  show ?thesis
    using surface_correction [OF s axis_grad_nonzero,
        of "[[0, 0], [2, 0], [2, 2], [0, 2], [1, 1]]" "[[0, 0], [2, 0], [2, 0], [0, 0], [1, 0]]"]
      surface_correction [OF s axis_grad_nonzero,
        of "[[0, 0], [2, 0], [2, 0], [0, 0], [1, 0]]" "[[0, 0], [2, 0], [2, 0], [0, 0], [1, 0]]"]
    by (simp add: s t w0 w1 axis_pass axis_grad_nonzero)
qed

text \<open>Claim C3 as stated fails: with the line \<open>y = 0\<close> as implicit surface and no
  \<^verbatim>\<open>boundary_step\<close>, the boundary vertex (2, 2) is at (2, 0) after one pass.\<close>

theorem boundary_freeze_counterexample:
  "wf_pass square_services current_points axis_options square_mesh \<and>
   boundary_step axis_options = None \<and>
   is_boundary_point square_services square_mesh ! 2 \<and>
   points square_mesh ! 2 = [2, 2] \<and>
   iteration square_services current_points axis_options square_mesh =
     Some (square_mesh\<lparr>points := [[0, 0], [2, 0], [2, 0], [0, 0], [1, 0]]\<rparr>,
           [[0, 0], [0, 0], [0, 0], [0, 0], [0, 0]])"
proof -
  have t: "surface_tol axis_options = 1 / 10 ^ 10"
    by (simp add: surface_tol_def axis_options_def no_options_def)
  have d: "clamped_diff square_services current_points axis_options square_mesh =
      [[0, 0], [0, 0], [0, 0], [0, 0], [0, 0]]"
    by (simp add: clamped_diff_def raw_diff_def proposal_def max_step_def
      minimum_at_def reshape_cells_def repeat3_def square_services_def current_points_def
      square_mesh_def scale_def vsub_def clamp_row_def step_length_def dot_def
      axis_options_def no_options_def omega_value_def Let_def numeral_eq_Suc)
  have p: "project_to_surface axis_options [[0, 0], [2, 0], [2, 2], [0, 2], [1, 1]] =
      Some [[0, 0], [2, 0], [2, 0], [0, 0], [1, 0]]"
    using axis_project [of "1 / 10 ^ 10"]
    by (simp add: project_to_surface_def axis_options_def t [unfolded axis_options_def])
  show ?thesis
    by (simp add: square_axis_wf iteration_def square_axis_stepped p d)
       (simp add: axis_options_def no_options_def square_services_def square_mesh_def)
qed

section \<open>The loop of the driver\<close>

lemma optimize_loop_props:
  "optimize_loop E gnp tol n opts k m evs = Some r \<Longrightarrow>
   k < k_final r \<and> k_final r \<le> max (k + 1) n \<and>
   is_final tol n (k_final r) (last_diff r) \<and>
   retval r = return_value (k_final r) (last_diff r) \<and>
   (\<exists>m0. iteration E gnp opts m0 = Some (mesh_final r, last_diff r))"
proof (induction E gnp tol n opts k m evs arbitrary: r rule: optimize_loop.induct)
  case (1 E gnp tol n opts k m evs)
  from "1.prems" obtain m' diff where it: "iteration E gnp opts m = Some (m', diff)"
    by (subst (asm) optimize_loop.simps) (auto split: option.splits)
  show ?case
  proof (cases "is_final tol n (k + 1) diff")
    case True
    then have "r = \<lparr>retval = return_value (k + 1) diff, k_final = k + 1, last_diff = diff,
        mesh_final = m', out = evs @ pass_events opts True (k + 1)\<rparr>"
      using "1.prems" it by (subst (asm) optimize_loop.simps) simp
    then show ?thesis
      using True it by auto
  next
    case False
    then have rec: "optimize_loop E gnp tol n opts (k + 1) m'
        (evs @ pass_events opts False (k + 1)) = Some r"
      using "1.prems" it by (subst (asm) optimize_loop.simps) simp
    have lt: "k + 1 < n"
      using False by (simp add: is_final_def)
    from "1.IH" [OF it refl False rec] lt show ?thesis
      by auto
  qed
qed

lemma optimize_loop_None:
  "optimize_loop E gnp tol n opts k m evs = None \<longleftrightarrow>
     (\<exists>j mj. pass_state E gnp tol n opts k m j = Some mj \<and> iteration E gnp opts mj = None)"
proof (induction E gnp tol n opts k m evs rule: optimize_loop.induct)
  case (1 E gnp tol n opts k m evs)
  show ?case
  proof (cases "iteration E gnp opts m")
    case None
    then have "optimize_loop E gnp tol n opts k m evs = None"
      by (subst optimize_loop.simps) simp
    moreover have "pass_state E gnp tol n opts k m 0 = Some m \<and> iteration E gnp opts m = None"
      using None by simp
    ultimately show ?thesis
      by blast
  next
    case (Some a)
    obtain m' d where a: "a = (m', d)"
      by (cases a)
    have it: "iteration E gnp opts m = Some (m', d)"
      using Some a by simp
    have shift: "(\<exists>j mj. pass_state E gnp tol n opts k m j = Some mj \<and> iteration E gnp opts mj = None) \<longleftrightarrow>
        (\<exists>j mj. pass_state E gnp tol n opts k m (Suc j) = Some mj \<and> iteration E gnp opts mj = None)"
    proof
      assume "\<exists>j mj. pass_state E gnp tol n opts k m j = Some mj \<and> iteration E gnp opts mj = None"
      then obtain j mj where j: "pass_state E gnp tol n opts k m j = Some mj"
        "iteration E gnp opts mj = None"
        by blast
      then obtain i where "j = Suc i"
        using it by (cases j) auto
      with j show "\<exists>j mj. pass_state E gnp tol n opts k m (Suc j) = Some mj \<and>
          iteration E gnp opts mj = None"
        by blast
    next
      assume "\<exists>j mj. pass_state E gnp tol n opts k m (Suc j) = Some mj \<and>
          iteration E gnp opts mj = None"
      then show "\<exists>j mj. pass_state E gnp tol n opts k m j = Some mj \<and> iteration E gnp opts mj = None"
        by blast
    qed
    show ?thesis
    proof (cases "is_final tol n (k + 1) d")
      case True
      then have "optimize_loop E gnp tol n opts k m evs \<noteq> None"
        using it by (subst optimize_loop.simps) (simp del: optimize_loop.simps)
      moreover have "pass_state E gnp tol n opts k m (Suc j) = None" for j
        using it True by simp
      ultimately show ?thesis
        unfolding shift by simp
    next
      case False
      have "optimize_loop E gnp tol n opts k m evs =
          optimize_loop E gnp tol n opts (k + 1) m' (evs @ pass_events opts False (k + 1))"
        using it False by (subst optimize_loop.simps) (simp del: optimize_loop.simps)
      moreover have "pass_state E gnp tol n opts k m (Suc j) =
          pass_state E gnp tol n opts (k + 1) m' j" for j
        using it False by simp
      ultimately show ?thesis
        unfolding shift using "1.IH" [OF it refl False] by simp
    qed
  qed
qed

lemma iteration_None:
  "iteration E gnp opts m = None \<longleftrightarrow>
     project_to_surface opts (stepped_points E gnp opts m) = None"
  by (simp add: iteration_def split: option.splits)

lemma pass_state_bound:
  "pass_state E gnp tol n opts k m j = Some mj \<Longrightarrow> j = 0 \<or> k + int j < n"
proof (induction j arbitrary: k m)
  case 0
  then show ?case by simp
next
  case (Suc j)
  from Suc.prems obtain m' d where it: "iteration E gnp opts m = Some (m', d)"
    and nf: "\<not> is_final tol n (k + 1) d"
    and rest: "pass_state E gnp tol n opts (k + 1) m' j = Some mj"
    by (auto split: option.splits if_splits)
  have "k + 1 < n"
    using nf by (simp add: is_final_def)
  with Suc.IH [OF rest] show ?case
    by auto
qed

text \<open>
  Claim C2, amended. Whatever the tolerance is: a run of the driver that returns has
  made at least one pass and at most the larger of 1 and \<^verbatim>\<open>max_num_steps\<close>; a run
  does not return exactly when it enters a pass whose correction loop towards the
  implicit surface does not return; whether it returns or not, a run enters at most
  as many passes as the larger of 1 and \<^verbatim>\<open>max_num_steps\<close>; and with no implicit
  surface configured every run returns.
\<close>

theorem termination_bound:
  "(u_optimize E gnp m tol max_num_steps opts = Some r \<longrightarrow>
      1 \<le> k_final r \<and> k_final r \<le> max 1 max_num_steps) \<and>
   (u_optimize E gnp m tol max_num_steps opts = None \<longleftrightarrow>
      (\<exists>j mj. pass_state E gnp tol max_num_steps opts 0 (flip_until_delaunay E m) j = Some mj \<and>
              project_to_surface opts (stepped_points E gnp opts mj) = None)) \<and>
   (pass_state E gnp tol max_num_steps opts 0 (flip_until_delaunay E m) j = Some mj \<longrightarrow>
      int j < max 1 max_num_steps) \<and>
   (implicit_surface opts = None \<longrightarrow> u_optimize E gnp m tol max_num_steps opts \<noteq> None)"
proof (intro conjI impI)
  assume r: "u_optimize E gnp m tol max_num_steps opts = Some r"
  from optimize_loop_props [OF r [unfolded u_optimize_def]]
  show "1 \<le> k_final r" and "k_final r \<le> max 1 max_num_steps"
    by auto
next
  show n: "u_optimize E gnp m tol max_num_steps opts = None \<longleftrightarrow>
      (\<exists>j mj. pass_state E gnp tol max_num_steps opts 0 (flip_until_delaunay E m) j = Some mj \<and>
              project_to_surface opts (stepped_points E gnp opts mj) = None)"
    unfolding u_optimize_def by (simp only: optimize_loop_None iteration_None)
  assume "implicit_surface opts = None"
  then have "project_to_surface opts ps \<noteq> None" for ps
    by (simp add: project_to_surface_def)
  with n show "u_optimize E gnp m tol max_num_steps opts \<noteq> None"
    by simp
next
  assume "pass_state E gnp tol max_num_steps opts 0 (flip_until_delaunay E m) j = Some mj"
  from pass_state_bound [OF this] show "int j < max 1 max_num_steps"
    by auto
qed

lemma step_length_small:
  assumes "dot d d < tol\<^sup>2"
  shows "step_length d < \<bar>tol\<bar>"
proof -
  have "sqrt (dot d d) < sqrt (tol\<^sup>2)"
    using assms by (simp only: real_sqrt_less_iff)
  then show ?thesis
    by (simp add: step_length_def)
qed

text \<open>
  Claim C4, amended. When the driver leaves its loop before the counter reaches
  \<^verbatim>\<open>max_num_steps\<close>, the tolerance test of line 149 holds for the last clamped
  \<^verbatim>\<open>diff\<close>. When that test holds at the exit, every row of the last clamped
  \<^verbatim>\<open>diff\<close> is shorter than the absolute value of \<^verbatim>\<open>tol\<close>, hence shorter than
  \<^verbatim>\<open>tol\<close> when \<^verbatim>\<open>tol\<close> is not negative.
\<close>

theorem convergence_correct:
  "(u_optimize E gnp m tol max_num_steps opts = Some r \<and> k_final r < max_num_steps \<longrightarrow>
      list_all (\<lambda>x. x < tol\<^sup>2) (diff_norm_2 (last_diff r))) \<and>
   (u_optimize E gnp m tol max_num_steps opts = Some r \<and>
    list_all (\<lambda>x. x < tol\<^sup>2) (diff_norm_2 (last_diff r)) \<longrightarrow>
      (\<forall>d \<in> set (last_diff r). step_length d < \<bar>tol\<bar> \<and> (0 \<le> tol \<longrightarrow> step_length d < tol)))"
proof (intro conjI impI)
  assume a: "u_optimize E gnp m tol max_num_steps opts = Some r \<and> k_final r < max_num_steps"
  from optimize_loop_props [OF a [THEN conjunct1, unfolded u_optimize_def]] a
  show "list_all (\<lambda>x. x < tol\<^sup>2) (diff_norm_2 (last_diff r))"
    by (simp add: is_final_def)
next
  assume a: "u_optimize E gnp m tol max_num_steps opts = Some r \<and>
    list_all (\<lambda>x. x < tol\<^sup>2) (diff_norm_2 (last_diff r))"
  show "\<forall>d \<in> set (last_diff r). step_length d < \<bar>tol\<bar> \<and> (0 \<le> tol \<longrightarrow> step_length d < tol)"
  proof
    fix d assume "d \<in> set (last_diff r)"
    then have "dot d d < tol\<^sup>2"
      using a by (simp add: diff_norm_2_def list_all_iff)
    from step_length_small [OF this]
    show "step_length d < \<bar>tol\<bar> \<and> (0 \<le> tol \<longrightarrow> step_length d < tol)"
      by auto
  qed
qed

lemma return_value_max:
  "diff \<noteq> [] \<Longrightarrow> return_value k diff = Inr (k, Max (set (map step_length diff)))"
proof -
  assume "diff \<noteq> []"
  then obtain d ds where d: "diff = d # ds"
    by (cases diff) auto
  have "map sqrt (diff_norm_2 diff) = step_length d # map step_length ds"
    by (simp add: diff_norm_2_def step_length_def d)
  moreover have "fold max (map step_length ds) (step_length d) =
      Max (set (step_length d # map step_length ds))"
    by (simp only: Max.set_eq_fold)
  ultimately show ?thesis
    by (simp add: return_value_def d del: set_map)
qed

lemma square_current_clamped:
  "clamped_diff square_services current_points no_options square_mesh =
     [[0, 0], [0, 0], [0, 0], [0, 0], [0, 0]]"
  by (simp add: clamped_diff_def raw_diff_def proposal_def max_step_def
      minimum_at_def reshape_cells_def repeat3_def square_services_def current_points_def
      square_mesh_def scale_def vsub_def clamp_row_def step_length_def dot_def
      no_options_def omega_value_def Let_def numeral_eq_Suc)

lemma square_current_iteration:
  "iteration square_services current_points no_options square_mesh =
     Some (square_mesh, [[0, 0], [0, 0], [0, 0], [0, 0], [0, 0]])"
proof -
  have "stepped_points square_services current_points no_options square_mesh =
      points square_mesh"
    by (simp add: stepped_points_def square_current_clamped) (simp add: square_mesh_def vadd_def)
  moreover have "implicit_surface no_options = None"
    by (simp add: no_options_def)
  moreover have "flip_until_delaunay square_services x = x" for x
    by (simp add: square_services_def)
  ultimately show ?thesis
    by (simp add: iteration_no_surface square_current_clamped)
qed

lemma square_return: "return_value 1 [[0, 0], [0, 0], [0, 0], [0, 0], [0, 0]] = Inr (1, 0)"
  by (simp add: return_value_def diff_norm_2_def dot_def)

lemma square_run:
  assumes "is_final tol n 1 [[0, 0], [0, 0], [0, 0], [0, 0], [0, 0]]"
  shows "u_optimize square_services current_points square_mesh tol n no_options =
    Some \<lparr>retval = Inr (1, 0), k_final = 1,
          last_diff = [[0, 0], [0, 0], [0, 0], [0, 0], [0, 0]],
          mesh_final = square_mesh, out = []\<rparr>"
proof -
  have f: "flip_until_delaunay square_services square_mesh = square_mesh"
    by (simp add: square_services_def)
  have e: "pass_events no_options True 1 = []" "verbose no_options = False"
    "callback no_options = False" "truthy (step_filename_format no_options) = False"
    by (simp_all add: pass_events_def no_options_def truthy_def)
  show ?thesis
    unfolding u_optimize_def f
    by (subst optimize_loop.simps)
       (simp add: square_current_iteration assms square_return e del: optimize_loop.simps)
qed

lemma length_funpow_pass: "length ((newton_pass S ^^ n) ps) = length ps"
  by (induction n) (simp_all add: newton_pass_def)

lemma vee_never_within:
  assumes "ps \<noteq> []" and "tol < 1"
  shows "\<not> within_tol vee_surface tol ps"
proof -
  obtain p qs where ps: "ps = p # qs"
    using assms(1) by (cases ps) auto
  have "tol < \<bar>p ! 1 + 1\<bar> + 1"
    using assms(2) by linarith
  then have "\<not> \<bar>surf_f vee_surface p\<bar> \<le> tol"
    by (simp add: vee_surface_def)
  then show ?thesis
    by (simp add: within_tol_def ps)
qed

lemma vee_project:
  assumes "ps \<noteq> []" and "tol < 1"
  shows "project_loop vee_surface tol ps (map (surf_f vee_surface) ps) = None"
proof (rule ccontr)
  assume "project_loop vee_surface tol ps (map (surf_f vee_surface) ps) \<noteq> None"
  then obtain ps' where "project_loop vee_surface tol ps (map (surf_f vee_surface) ps) = Some ps'"
    by blast
  from project_loop_result [OF this] obtain n where
    n: "ps' = (newton_pass vee_surface ^^ n) ps" "within_tol vee_surface tol ps'"
    by auto
  have "length ps' = length ps"
    using n(1) by (simp add: length_funpow_pass)
  then have "ps' \<noteq> []"
    using assms(1) by auto
  from vee_never_within [OF this assms(2)] n(2) show False
    by simp
qed

lemma vee_pass_row:
  assumes "y + 1 \<noteq> 0"
  shows "newton_pass vee_surface [[x, y]] = [[x, - sgn (y + 1) - 1]]"
proof -
  have a: "sgn (y + 1) * sgn (y + 1) = 1"
    using assms by (simp add: sgn_real_def)
  have b: "y - sgn (y + 1) * (\<bar>y + 1\<bar> + 1) = - sgn (y + 1) - 1"
    using assms by (simp add: sgn_real_def)
  have "newton_pass vee_surface [[x, y]] =
      [[x, y - sgn (y + 1) * ((\<bar>y + 1\<bar> + 1) / (sgn (y + 1) * sgn (y + 1)))]]"
    by (simp add: newton_pass_def vee_surface_def dot_def scale_def vsub_def)
  then show ?thesis
    by (simp only: a b div_by_1)
qed

lemma vee_pass_keeps:
  assumes "list_all (\<lambda>p. \<exists>x y. p = [x, y] \<and> y + 1 \<noteq> 0) ps"
  shows "list_all (\<lambda>p. \<exists>x y. p = [x, y] \<and> y + 1 \<noteq> 0) (newton_pass vee_surface ps)"
  using assms
proof (induction ps)
  case Nil
  then show ?case by (simp add: newton_pass_def)
next
  case (Cons p ps)
  then obtain x y where p: "p = [x, y]" "y + 1 \<noteq> 0"
    by auto
  have "newton_pass vee_surface (p # ps) =
      newton_pass vee_surface [[x, y]] @ newton_pass vee_surface ps"
    by (simp add: newton_pass_def p(1))
  moreover have "- sgn (y + 1) - 1 + 1 \<noteq> 0"
    using p(2) by (simp add: sgn_real_def)
  ultimately show ?case
    using Cons vee_pass_row [OF p(2), of x] by simp
qed

lemma vee_grad_nonzero:
  assumes "list_all (\<lambda>p. \<exists>x y. p = [x, y] \<and> y + 1 \<noteq> 0) ps"
  shows "grad_nonzero vee_surface ps"
proof -
  have inv: "list_all (\<lambda>p. \<exists>x y. p = [x, y] \<and> y + 1 \<noteq> 0) ((newton_pass vee_surface ^^ k) ps)"
    for k
    by (induction k) (simp_all add: assms vee_pass_keeps)
  show ?thesis
    unfolding grad_nonzero_def
  proof (intro allI ballI)
    fix k p assume "p \<in> set ((newton_pass vee_surface ^^ k) ps)"
    with inv [of k] obtain x y where "p = [x, y]" "y + 1 \<noteq> 0"
      by (auto simp: list_all_iff)
    then show "dot (surf_grad vee_surface p) (surf_grad vee_surface p) \<noteq> 0"
      by (simp add: vee_surface_def dot_def sgn_real_def)
  qed
qed

lemma square_vee_grad_nonzero:
  "grad_nonzero vee_surface [[0, 0], [2, 0], [2, 2], [0, 2], [1, 1]]"
  by (rule vee_grad_nonzero) simp

text \<open>Claim C2 as stated fails: with \<^verbatim>\<open>max_num_steps = 0\<close> the driver makes one
  pass, and with the field \<open>|y + 1| + 1\<close>, which no pass brings within the tolerance
  and whose gradient is not zero at any point reached, its first pass never ends.\<close>

theorem termination_bound_counterexample:
  "map_option k_final (u_optimize square_services current_points square_mesh 1 0 no_options) =
     Some 1 \<and>
   u_optimize square_services current_points square_mesh 1 10 vee_options = None"
proof -
  have "is_final 1 0 1 [[0, 0], [0, 0], [0, 0], [0, 0], [0, 0]]"
    by (simp add: is_final_def)
  from square_run [OF this]
  have a: "map_option k_final (u_optimize square_services current_points square_mesh 1 0 no_options) =
     Some 1"
    by simp
  have t: "surface_tol vee_options = 1 / 10 ^ 10" "implicit_surface vee_options = Some vee_surface"
    by (simp_all add: surface_tol_def vee_options_def no_options_def)
  have l: "stepped_points square_services current_points vee_options square_mesh \<noteq> []"
    by (simp add: stepped_points_def clamped_diff_def raw_diff_def proposal_def max_step_def
      minimum_at_def reshape_cells_def repeat3_def square_services_def current_points_def
      square_mesh_def vee_options_def no_options_def Let_def)
  have "iteration square_services current_points vee_options square_mesh = None"
    using vee_project [OF l, of "1 / 10 ^ 10"]
    by (simp add: iteration_def project_to_surface_def t)
  then have b: "u_optimize square_services current_points square_mesh 1 10 vee_options = None"
    unfolding u_optimize_def
    by (subst optimize_loop.simps) (simp add: square_services_def del: optimize_loop.simps)
  from a b show ?thesis by simp
qed

text \<open>Claim C2, amended, on the square: with no surface the run returns after one
  pass of at most ten, and with the field \<open>|y + 1| + 1\<close> the first pass is entered and
  its correction loop does not return, so the run does not.\<close>

theorem termination_bound_witness:
  "u_optimize square_services current_points square_mesh 1 10 no_options =
     Some \<lparr>retval = Inr (1, 0), k_final = 1,
           last_diff = [[0, 0], [0, 0], [0, 0], [0, 0], [0, 0]],
           mesh_final = square_mesh, out = []\<rparr> \<and>
   (1::int) \<le> max 1 10 \<and>
   implicit_surface no_options = None \<and>
   pass_state square_services current_points 1 10 vee_options 0
     (flip_until_delaunay square_services square_mesh) 0 = Some square_mesh \<and>
   project_to_surface vee_options
     (stepped_points square_services current_points vee_options square_mesh) = None \<and>
   u_optimize square_services current_points square_mesh 1 10 vee_options = None"
proof -
  have f: "is_final 1 10 1 [[0, 0], [0, 0], [0, 0], [0, 0], [0, 0]]"
    by (simp add: is_final_def diff_norm_2_def dot_def)
  note run = square_run [OF f]
  have s: "implicit_surface no_options = None"
    by (simp add: no_options_def)
  have p: "pass_state square_services current_points 1 10 vee_options 0
      (flip_until_delaunay square_services square_mesh) 0 = Some square_mesh"
    by (simp add: square_services_def)
  have t: "surface_tol vee_options = 1 / 10 ^ 10" "implicit_surface vee_options = Some vee_surface"
    by (simp_all add: surface_tol_def vee_options_def no_options_def)
  have l: "stepped_points square_services current_points vee_options square_mesh \<noteq> []"
    by (simp add: stepped_points_def clamped_diff_def raw_diff_def proposal_def max_step_def
      minimum_at_def reshape_cells_def repeat3_def square_services_def current_points_def
      square_mesh_def vee_options_def no_options_def Let_def)
  have q: "project_to_surface vee_options
      (stepped_points square_services current_points vee_options square_mesh) = None"
    using vee_project [OF l, of "1 / 10 ^ 10"] by (simp add: project_to_surface_def t)
  have ex: "\<exists>j mj. pass_state square_services current_points 1 10 vee_options 0
      (flip_until_delaunay square_services square_mesh) j = Some mj \<and>
      project_to_surface vee_options
        (stepped_points square_services current_points vee_options mj) = None"
    using p q by blast
  have "u_optimize square_services current_points square_mesh 1 10 vee_options = None"
    using termination_bound [of square_services current_points square_mesh 1 10 vee_options] ex
    by blast
  moreover have "(1::int) \<le> max 1 10"
    using termination_bound [of square_services current_points square_mesh 1 10 no_options
        "\<lparr>retval = Inr (1, 0), k_final = 1,
           last_diff = [[0, 0], [0, 0], [0, 0], [0, 0], [0, 0]],
           mesh_final = square_mesh, out = []\<rparr>"] run
    by simp
  ultimately show ?thesis
    using run s p q by simp
qed

text \<open>Claim C4 as stated fails: with \<^verbatim>\<open>tol = -1\<close> the run on the square is final
  after one pass of ten by the tolerance test, since 0 is less than the square of
  -1, and the steps of length 0 are not shorter than -1.\<close>

theorem convergence_correct_counterexample:
  "u_optimize square_services current_points square_mesh (- 1) 10 no_options =
     Some \<lparr>retval = Inr (1, 0), k_final = 1,
           last_diff = [[0, 0], [0, 0], [0, 0], [0, 0], [0, 0]],
           mesh_final = square_mesh, out = []\<rparr> \<and>
   is_final (- 1) 10 1 [[0, 0], [0, 0], [0, 0], [0, 0], [0, 0]] \<and>
   \<not> (10::int) \<le> 1 \<and>
   \<not> step_length [0, 0] < - 1"
proof -
  have f: "is_final (- 1) 10 1 [[0, 0], [0, 0], [0, 0], [0, 0], [0, 0]]"
    by (simp add: is_final_def diff_norm_2_def dot_def)
  from square_run [OF f] f show ?thesis
    by (simp add: step_length_def dot_def)
qed

text \<open>Claim C4, amended, on the square with \<^verbatim>\<open>tol = 1\<close>.\<close>

theorem convergence_correct_witness:
  "u_optimize square_services current_points square_mesh 1 10 no_options =
     Some \<lparr>retval = Inr (1, 0), k_final = 1,
           last_diff = [[0, 0], [0, 0], [0, 0], [0, 0], [0, 0]],
           mesh_final = square_mesh, out = []\<rparr> \<and>
   (1::int) < 10 \<and>
   list_all (\<lambda>x. x < 1\<^sup>2) (diff_norm_2 [[0, 0], [0, 0], [0, 0], [0, 0], [0, 0]]) \<and>
   step_length [0, 0] < \<bar>1\<bar> \<and> step_length [0, 0] < 1"
proof -
  have "is_final 1 10 1 [[0, 0], [0, 0], [0, 0], [0, 0], [0, 0]]"
    by (simp add: is_final_def diff_norm_2_def dot_def)
  from square_run [OF this]
    convergence_correct [of square_services current_points square_mesh 1 10 no_options
      "\<lparr>retval = Inr (1, 0), k_final = 1,
           last_diff = [[0, 0], [0, 0], [0, 0], [0, 0], [0, 0]],
           mesh_final = square_mesh, out = []\<rparr>"]
  show ?thesis
    by simp
qed

text \<open>
  Claim C5, amended. A call of \<open>optimize\<close> whose name is a key of the table and
  whose driver returns after a last pass on at least one vertex returns the pair of
  the counter of passes and the greatest length of a row of the clamped \<^verbatim>\<open>diff\<close>
  of that last pass. A call on the branch of the nonlinear optimizer returns None.
\<close>

theorem return_contract:
  "(methods (normalize method) = Some s \<and>
    u_optimize E (strategy_new_points E s) m tol max_num_steps kwargs = Some r \<and>
    last_diff r \<noteq> [] \<longrightarrow>
      optimize E m method tol max_num_steps kwargs = Some (of_run r) \<and>
      returned (of_run r) = Inr (Some (k_final r, Max (set (map step_length (last_diff r))))) \<and>
      (\<exists>m0. iteration E (strategy_new_points E s) kwargs m0 = Some (mesh_final r, last_diff r))) \<and>
   (take 3 (normalize method) = ''odt'' \<and> drop 4 (normalize method) \<noteq> ''fixed-point'' \<and>
    (omega kwargs = None \<or> omega kwargs = Some 1) \<longrightarrow>
      map_option returned (optimize E m method tol max_num_steps kwargs) = Some (Inr None))"
proof (intro conjI impI)
  assume a: "methods (normalize method) = Some s \<and>
    u_optimize E (strategy_new_points E s) m tol max_num_steps kwargs = Some r \<and>
    last_diff r \<noteq> []"
  then have h: "methods (normalize method) = Some s"
    and u: "u_optimize E (strategy_new_points E s) m tol max_num_steps kwargs = Some r"
    and ne: "last_diff r \<noteq> []"
    by simp_all
  have "(if take 3 (normalize method) = ''odt'' \<and> drop 4 (normalize method) \<noteq> ''fixed-point''
         then x else y) = y" for x y :: "outcome option"
    using methods_not_nonlinear [OF h] by (rule if_not_P)
  with h u show "optimize E m method tol max_num_steps kwargs = Some (of_run r)"
    by (simp add: optimize_def Let_def)
  from optimize_loop_props [OF u [unfolded u_optimize_def]]
  have p: "retval r = return_value (k_final r) (last_diff r)"
    and i: "\<exists>m0. iteration E (strategy_new_points E s) kwargs m0 = Some (mesh_final r, last_diff r)"
    by simp_all
  show "returned (of_run r) = Inr (Some (k_final r, Max (set (map step_length (last_diff r)))))"
    by (simp add: of_run_def p return_value_max [OF ne] del: set_map)
  from i show "\<exists>m0. iteration E (strategy_new_points E s) kwargs m0 = Some (mesh_final r, last_diff r)" .
next
  assume "take 3 (normalize method) = ''odt'' \<and> drop 4 (normalize method) \<noteq> ''fixed-point'' \<and>
    (omega kwargs = None \<or> omega kwargs = Some 1)"
  then show "map_option returned (optimize E m method tol max_num_steps kwargs) = Some (Inr None)"
    by (auto simp: optimize_def nonlinear_path_def)
qed

text \<open>Claim C5 as stated fails: the name \<^verbatim>\<open>odt-bfgs\<close> takes the branch of the
  nonlinear optimizer, and the call returns None, not a pair.\<close>

theorem return_contract_counterexample:
  "normalize ''odt-bfgs'' = ''odt-bfgs'' \<and>
   optimize square_services square_mesh ''odt-bfgs'' 1 10 no_options =
     Some \<lparr>returned = Inr None, mesh_after = square_mesh, events = []\<rparr>"
proof -
  have n: "normalize ''odt-bfgs'' = ''odt-bfgs''"
    by code_simp
  show ?thesis
    by (simp add: n optimize_def nonlinear_path_def no_options_def square_services_def)
qed

text \<open>Claim C5, amended, on the square: \<^verbatim>\<open>lloyd\<close> returns (1, 0) and
  \<^verbatim>\<open>odt-bfgs\<close> returns None.\<close>

theorem return_contract_witness:
  "methods (normalize ''lloyd'') = Some Cvt_lloyd \<and>
   u_optimize square_services (strategy_new_points square_services Cvt_lloyd) square_mesh 1 10
     no_options =
     Some \<lparr>retval = Inr (1, 0), k_final = 1,
           last_diff = [[0, 0], [0, 0], [0, 0], [0, 0], [0, 0]],
           mesh_final = square_mesh, out = []\<rparr> \<and>
   optimize square_services square_mesh ''lloyd'' 1 10 no_options =
     Some \<lparr>returned = Inr (Some (1, 0)), mesh_after = square_mesh, events = []\<rparr> \<and>
   Max (set (map step_length [[0, 0], [0, 0], [0, 0], [0, 0], [0, 0]])) = 0 \<and>
   take 3 (normalize ''odt-bfgs'') = ''odt'' \<and> drop 4 (normalize ''odt-bfgs'') \<noteq> ''fixed-point'' \<and>
   omega no_options = None \<and>
   map_option returned (optimize square_services square_mesh ''odt-bfgs'' 1 10 no_options) =
     Some (Inr None)"
proof -
  have n: "normalize ''lloyd'' = ''lloyd''" "normalize ''odt-bfgs'' = ''odt-bfgs''"
    by code_simp+
  have k: "methods ''lloyd'' = Some Cvt_lloyd"
    by (simp add: methods_def)
  have g: "strategy_new_points square_services Cvt_lloyd = current_points"
    by (simp add: square_services_def current_points_def fun_eq_iff)
  have "is_final 1 10 1 [[0, 0], [0, 0], [0, 0], [0, 0], [0, 0]]"
    by (simp add: is_final_def diff_norm_2_def dot_def)
  note u = square_run [OF this]
  have o: "omega no_options = None"
    by (simp add: no_options_def)
  show ?thesis
    using return_contract [of "''lloyd''" Cvt_lloyd square_services square_mesh 1 10 no_options
        "\<lparr>retval = Inr (1, 0), k_final = 1,
           last_diff = [[0, 0], [0, 0], [0, 0], [0, 0], [0, 0]],
           mesh_final = square_mesh, out = []\<rparr>"]
      return_contract [of "''odt-bfgs''" Cvt_lloyd square_services square_mesh 1 10 no_options
        "\<lparr>retval = Inr (1, 0), k_final = 1,
           last_diff = [[0, 0], [0, 0], [0, 0], [0, 0], [0, 0]],
           mesh_final = square_mesh, out = []\<rparr>"]
    by (simp add: n k g u o of_run_def step_length_def dot_def)
qed

end
